theory Spec2Isabelle
  imports Main "HOL-Library.Word"
begin

unbundle bit_operations_syntax

section \<open>Platform and C library\<close>

text \<open>
  The embedding fixes the usual LP64 target of the program (x86-64 Linux, gcc or clang):
  \<open>int\<close> and \<open>unsigned int\<close> are 32 bits, \<open>unsigned long\<close> and \<open>long long\<close> are
  64 bits, \<open>char\<close> is a signed byte. An \<open>int\<close> is kept as its 32-bit pattern and read with
  \<open>sint\<close>; \<open>++\<close> on it is the two's complement increment, so a counter at \<open>INT_MAX\<close>
  continues at \<open>INT_MIN\<close>. A byte of a file or of a string is a \<open>char\<close> of HOL (8 bits),
  a string of C is the list of its bytes; a buffer is read as a string up to its first
  NUL byte or, when it holds none, up to its end (the terminator is then implicit).

  The program never calls \<open>setlocale\<close>, so \<open>isspace\<close>, \<open>isalpha\<close> and \<open>tolower\<close> are
  those of the "C" locale.
\<close>

definition isspace :: "char \<Rightarrow> bool" where
  "isspace c = (let n = (of_char c :: nat) in n = 32 \<or> (9 \<le> n \<and> n \<le> 13))"

definition isupper :: "char \<Rightarrow> bool" where
  "isupper c = (let n = (of_char c :: nat) in 65 \<le> n \<and> n \<le> 90)"

definition islower :: "char \<Rightarrow> bool" where
  "islower c = (let n = (of_char c :: nat) in 97 \<le> n \<and> n \<le> 122)"

definition isalpha :: "char \<Rightarrow> bool" where
  "isalpha c = (isupper c \<or> islower c)"

definition tolower :: "char \<Rightarrow> char" where
  "tolower c = (if isupper c then char_of ((of_char c :: nat) + 32) else c)"

text \<open>The string a buffer holds: its bytes before the first NUL.\<close>

definition cstr :: "string \<Rightarrow> string" where
  "cstr s = takeWhile (\<lambda>c. c \<noteq> CHR 0x00) s"

text \<open>\<open>strcmp\<close>: the difference of the first two bytes that differ, read as
  \<open>unsigned char\<close>; 0 when both strings end together.\<close>

fun strcmp :: "string \<Rightarrow> string \<Rightarrow> int" where
  "strcmp [] [] = 0"
| "strcmp [] (b # bs) = - int (of_char b)"
| "strcmp (a # as) [] = int (of_char a)"
| "strcmp (a # as) (b # bs) =
     (if a \<noteq> b then int (of_char a) - int (of_char b)
      else if a = CHR 0x00 then 0
      else strcmp as bs)"

text \<open>
  \<open>malloc\<close>, \<open>calloc\<close> and \<open>strdup\<close> may fail. The outcomes of the allocation requests
  still to come are a list of booleans, consumed one per request; when the list is
  used up every further request succeeds. The empty list is the allocator that never
  fails.
\<close>

type_synonym allocator = "bool list"

fun alloc :: "allocator \<Rightarrow> bool \<times> allocator" where
  "alloc [] = (True, [])"
| "alloc (ok # rest) = (ok, rest)"

section \<open>hashtable.h, hashtable.c\<close>

text \<open>A chain is the list of its nodes from the head of the bucket; \<open>next\<close> is the tail.\<close>

record Node =
  word :: string
  count :: "32 word"

type_synonym chain = "Node list"

record HashTable =
  ht_size :: "32 word"
  table :: "chain list"

text \<open>
  \<open>hash\<close>: the accumulator is an \<open>unsigned long\<close>, each byte is read into an \<open>int\<close>
  through \<open>char\<close> (so sign-extended) and added after conversion to \<open>unsigned long\<close>;
  the loop stops at the terminator. The result is returned as \<open>unsigned int\<close>: the
  low 32 bits of the accumulator.
\<close>

fun hash_loop :: "64 word \<Rightarrow> string \<Rightarrow> 64 word" where
  "hash_loop h [] = h"
| "hash_loop h (ch # rest) =
     (let c = sint (of_char ch :: 8 word)
      in if c = 0 then h
         else hash_loop ((push_bit 5 h + h) + word_of_int c) rest)"

definition hash :: "string \<Rightarrow> 32 word" where
  "hash w = ucast (hash_loop 5381 w)"

text \<open>\<open>create_hash_table\<close>: \<open>None\<close> is the NULL result.\<close>

definition create_hash_table :: "allocator \<Rightarrow> 32 word \<Rightarrow> HashTable option \<times> allocator" where
  "create_hash_table al sz =
     (if sint sz < 1 then (None, al)
      else case alloc al of
        (False, al1) \<Rightarrow> (None, al1)
      | (True, al1) \<Rightarrow>
          (case alloc al1 of
             (False, al2) \<Rightarrow> (None, al2)
           | (True, al2) \<Rightarrow>
               (Some \<lparr>ht_size = sz, table = replicate (unat sz) []\<rparr>, al2)))"

text \<open>The bucket of a word: \<open>hash(word) % ht->size\<close>, computed in \<open>unsigned int\<close>.\<close>

definition bucket_index :: "HashTable \<Rightarrow> string \<Rightarrow> nat" where
  "bucket_index ht w = unat (hash w mod ht_size ht)"

text \<open>The search loop of \<open>insert_word\<close>: the chain with the count of the first node
  whose word equals \<open>w\<close> incremented, or \<open>None\<close> when the loop reaches the end.\<close>

fun increment_in_chain :: "chain \<Rightarrow> string \<Rightarrow> chain option" where
  "increment_in_chain [] w = None"
| "increment_in_chain (current # rest) w =
     (if strcmp (word current) w = 0
      then Some (current\<lparr>count := count current + 1\<rparr> # rest)
      else map_option ((#) current) (increment_in_chain rest w))"

definition insert_word ::
    "allocator \<Rightarrow> HashTable option \<Rightarrow> string option \<Rightarrow> HashTable option \<times> allocator" where
  "insert_word al htp wordp =
     (case (htp, wordp) of
        (None, _) \<Rightarrow> (None, al)
      | (Some ht, None) \<Rightarrow> (Some ht, al)
      | (Some ht, Some w) \<Rightarrow>
          (let index = bucket_index ht w in
           case increment_in_chain (table ht ! index) w of
             Some ch \<Rightarrow> (Some (ht\<lparr>table := (table ht)[index := ch]\<rparr>), al)
           | None \<Rightarrow>
               (case alloc al of
                  (False, al1) \<Rightarrow> (Some ht, al1)
                | (True, al1) \<Rightarrow>
                    (case alloc al1 of
                       (False, al2) \<Rightarrow> (Some ht, al2)
                     | (True, al2) \<Rightarrow>
                         (Some (ht\<lparr>table := (table ht)
                                   [index := \<lparr>word = cstr w, count = 1\<rparr> # table ht ! index]\<rparr>),
                          al2)))))"

section \<open>analyzer.h, analyzer.c\<close>

record AppStats =
  filename :: string
  char_count :: "64 word"
  word_count :: "32 word"
  line_count :: "32 word"
  char_freq :: "32 word list"
  word_counts :: "HashTable option"

definition MAX_WORD_LEN :: nat where
  "MAX_WORD_LEN = 100"

text \<open>
  One iteration of the reading loop, on the byte \<open>c\<close> that \<open>fgetc\<close> returned. The state
  is the caller's \<open>AppStats\<close>, the allocator, and the two locals: \<open>word_buffer\<close> (its
  first \<open>word_buffer_index\<close> bytes, so that the index is the length) and \<open>in_word\<close>.
\<close>

type_synonym scan = "AppStats \<times> allocator \<times> string \<times> bool"

definition count_byte :: "AppStats \<Rightarrow> char \<Rightarrow> AppStats" where
  "count_byte stats c =
     (let s1 = stats\<lparr>char_count := char_count stats + 1\<rparr>;
          s2 = (if c = CHR 0x0A then s1\<lparr>line_count := line_count s1 + 1\<rparr> else s1)
      in s2\<lparr>char_freq := (char_freq s2)[of_char c := char_freq s2 ! of_char c + 1]\<rparr>)"

definition count_word :: "AppStats \<times> bool \<Rightarrow> char \<Rightarrow> AppStats \<times> bool" where
  "count_word si c =
     (case si of (stats, in_word) \<Rightarrow>
        if isspace c then (stats, False)
        else if \<not> in_word then (stats\<lparr>word_count := word_count stats + 1\<rparr>, True)
        else (stats, in_word))"

definition analyze_step :: "scan \<Rightarrow> char \<Rightarrow> scan" where
  "analyze_step s c =
     (case s of (stats, al, word_buffer, in_word) \<Rightarrow>
        (case count_word (count_byte stats c, in_word) c of (stats', in_word') \<Rightarrow>
           if isalpha c then
             (if length word_buffer < MAX_WORD_LEN - 1
              then (stats', al, word_buffer @ [tolower c], in_word')
              else (stats', al, word_buffer, in_word'))
           else if 0 < length word_buffer then
             (case insert_word al (word_counts stats') (Some word_buffer) of
                (htp, al') \<Rightarrow> (stats'\<lparr>word_counts := htp\<rparr>, al', [], in_word'))
           else (stats', al, word_buffer, in_word')))"

fun analyze_loop :: "scan \<Rightarrow> string \<Rightarrow> scan" where
  "analyze_loop s [] = s"
| "analyze_loop s (c # rest) = analyze_loop (analyze_step s c) rest"

text \<open>
  \<open>analyze_file\<close>. The file system is a function from a path to the bytes \<open>fopen\<close> and
  \<open>fgetc\<close> deliver, \<open>None\<close> when the file cannot be opened. The result is the returned
  \<open>int\<close>, the caller's \<open>AppStats\<close> and the allocator.
\<close>

definition analyze_file ::
    "(string \<Rightarrow> string option) \<Rightarrow> allocator \<Rightarrow> AppStats \<Rightarrow> int \<times> AppStats \<times> allocator" where
  "analyze_file fs al stats =
     (case fs (filename stats) of
        None \<Rightarrow> (- 1, stats, al)
      | Some bytes \<Rightarrow>
          (case analyze_loop (stats, al, [], False) bytes of
             (stats', al', word_buffer, in_word) \<Rightarrow>
               if 0 < length word_buffer then
                 (case insert_word al' (word_counts stats') (Some word_buffer) of
                    (htp, al'') \<Rightarrow> (0, stats'\<lparr>word_counts := htp\<rparr>, al''))
               else (0, stats', al')))"

section \<open>main.c: the state handed to the analysis\<close>

text \<open>\<open>AppStats stats = {0}\<close> with the file name, the zeroed \<open>main_char_freq[256]\<close> and
  the table that \<open>create_hash_table\<close> returned.\<close>

definition init_stats :: "string \<Rightarrow> HashTable option \<Rightarrow> AppStats" where
  "init_stats name htp =
     \<lparr>filename = name, char_count = 0, word_count = 0, line_count = 0,
      char_freq = replicate 256 0, word_counts = htp\<rparr>"

text \<open>The table \<open>create_hash_table\<close> returns when both allocations succeed.\<close>

definition empty_table :: "32 word \<Rightarrow> HashTable" where
  "empty_table sz = \<lparr>ht_size = sz, table = replicate (unat sz) []\<rparr>"

text \<open>All nodes of a table, in the order the report prints them: bucket by bucket,
  each chain from its head.\<close>

definition entries :: "HashTable \<Rightarrow> Node list" where
  "entries ht = concat (table ht)"

section \<open>Notions used to state the properties\<close>

text \<open>
  A table is a valid object when its \<open>size\<close> is at least 1 and \<open>table\<close> has \<open>size\<close>
  buckets: what \<open>create_hash_table\<close> establishes and \<open>insert_word\<close> relies on when it
  divides by \<open>size\<close> and indexes \<open>table\<close>.
\<close>

definition ht_ok :: "HashTable \<Rightarrow> bool" where
  "ht_ok ht = (1 \<le> sint (ht_size ht) \<and> length (table ht) = unat (ht_size ht))"

text \<open>Every node lies in the bucket of its word and stores a NUL-free string; no chain
  holds a word twice.\<close>

definition placed :: "HashTable \<Rightarrow> bool" where
  "placed ht = (\<forall>i < length (table ht). \<forall>e \<in> set (table ht ! i).
      bucket_index ht (word e) = i \<and> cstr (word e) = word e)"

definition chains_distinct :: "HashTable \<Rightarrow> bool" where
  "chains_distinct ht = (\<forall>i < length (table ht). distinct (map word (table ht ! i)))"

definition ht_inv :: "HashTable \<Rightarrow> bool" where
  "ht_inv ht = (ht_ok ht \<and> placed ht \<and> chains_distinct ht)"

text \<open>A sequence of \<open>insert_word\<close> calls on one table, the words never NULL.\<close>

fun insert_words :: "HashTable option \<times> allocator \<Rightarrow> string list \<Rightarrow> HashTable option \<times> allocator" where
  "insert_words s [] = s"
| "insert_words s (w # ws) = insert_words (insert_word (snd s) (fst s) (Some w)) ws"

text \<open>
  The hash as the specification words it: the accumulator starts at 5381 and becomes
  \<open>accumulator * 33 + byte\<close> for each byte from left to right, with unsigned wraparound
  at 64 bits.
\<close>

definition djb2 :: "string \<Rightarrow> nat" where
  "djb2 w = foldl (\<lambda>acc c. (acc * 33 + of_char c) mod 2 ^ 64) 5381 w"

text \<open>The allocator under which every request succeeds.\<close>

definition never_fails :: "allocator \<Rightarrow> bool" where
  "never_fails al = list_all (\<lambda>ok. ok) al"

text \<open>How \<open>insert_word\<close> for the word \<open>w\<close> may change a node: not at all, or, when the
  node's word equals \<open>w\<close>, by \<open>count++\<close>.\<close>

definition bumped :: "string \<Rightarrow> Node \<Rightarrow> Node \<Rightarrow> bool" where
  "bumped w e e' = (word e' = word e \<and>
      (count e' = count e \<or> (cstr (word e) = cstr w \<and> count e' = count e + 1)))"

text \<open>The word-to-count mapping a table represents.\<close>

definition word_count_of :: "HashTable \<Rightarrow> string \<rightharpoonup> 32 word" where
  "word_count_of ht = map_of (map (\<lambda>e. (word e, count e)) (entries ht))"

text \<open>
  Insert-or-increment on such a mapping, as the specification words it: an existing word
  has its count incremented; a new word costs two allocations (the entry, the copy of
  the string) and enters with count 1; when either allocation fails the insertion is
  dropped.
\<close>

definition map_insert ::
    "allocator \<Rightarrow> (string \<rightharpoonup> 32 word) \<Rightarrow> string \<Rightarrow> (string \<rightharpoonup> 32 word) \<times> allocator" where
  "map_insert al m w =
     (case m w of
        Some c \<Rightarrow> (m(w \<mapsto> c + 1), al)
      | None \<Rightarrow>
          (case alloc al of
             (False, al1) \<Rightarrow> (m, al1)
           | (True, al1) \<Rightarrow>
               (case alloc al1 of
                  (False, al2) \<Rightarrow> (m, al2)
                | (True, al2) \<Rightarrow> (m(w \<mapsto> 1), al2))))"

text \<open>A count after \<open>k\<close> more insertions of its word with no allocation failing.\<close>

definition add_occurrences :: "32 word option \<Rightarrow> nat \<Rightarrow> 32 word option" where
  "add_occurrences v k =
     (case v of None \<Rightarrow> (if k = 0 then None else Some (of_nat k))
      | Some c \<Rightarrow> Some (c + of_nat k))"

text \<open>
  The loop body of \<open>analyze_file\<close> read as two machines that run side by side. The
  counting part updates \<open>char_count\<close>, \<open>word_count\<close>, \<open>line_count\<close>, \<open>char_freq\<close> and
  \<open>in_word\<close>; it never looks at the word store.
\<close>

type_synonym counters = "64 word \<times> 32 word \<times> 32 word \<times> 32 word list \<times> bool"

definition counters_of :: "scan \<Rightarrow> counters" where
  "counters_of s = (case s of (stats, al, word_buffer, in_word) \<Rightarrow>
      (char_count stats, word_count stats, line_count stats, char_freq stats, in_word))"

definition counter_step :: "counters \<Rightarrow> char \<Rightarrow> counters" where
  "counter_step k c = (case k of (cc, wc, lc, fr, in_word) \<Rightarrow>
      (cc + 1,
       (if \<not> isspace c \<and> \<not> in_word then wc + 1 else wc),
       (if c = CHR 0x0A then lc + 1 else lc),
       fr[of_char c := fr ! of_char c + 1],
       \<not> isspace c))"

text \<open>
  The token part updates the word store, the allocator and \<open>word_buffer\<close>; it never
  looks at the counters. \<open>token_end\<close> is the insertion after the loop.
\<close>

type_synonym tokenizer = "HashTable option \<times> allocator \<times> string"

definition tokenizer_of :: "scan \<Rightarrow> tokenizer" where
  "tokenizer_of s = (case s of (stats, al, word_buffer, in_word) \<Rightarrow>
      (word_counts stats, al, word_buffer))"

definition token_step :: "tokenizer \<Rightarrow> char \<Rightarrow> tokenizer" where
  "token_step t c = (case t of (htp, al, word_buffer) \<Rightarrow>
      if isalpha c then
        (if length word_buffer < MAX_WORD_LEN - 1 then (htp, al, word_buffer @ [tolower c])
         else (htp, al, word_buffer))
      else if 0 < length word_buffer then
        (case insert_word al htp (Some word_buffer) of (htp', al') \<Rightarrow> (htp', al', []))
      else (htp, al, word_buffer))"

definition token_end :: "tokenizer \<Rightarrow> HashTable option \<times> allocator" where
  "token_end t = (case t of (htp, al, word_buffer) \<Rightarrow>
      if 0 < length word_buffer then insert_word al htp (Some word_buffer) else (htp, al))"

text \<open>\<open>stats->char_freq[(unsigned char)c]++\<close> on the table alone.\<close>

definition bump_freq :: "32 word list \<Rightarrow> char \<Rightarrow> 32 word list" where
  "bump_freq fr c = fr[of_char c := fr ! of_char c + 1]"

text \<open>
  The words the token part hands to \<open>insert_word\<close>, in order, with the table left out:
  an alphabetic byte is appended in lower case while \<open>word_buffer\<close> holds fewer than
  \<open>MAX_WORD_LEN - 1\<close> bytes and is skipped otherwise; any other byte ends a non-empty
  buffer; so does the end of the file.
\<close>

fun tokens :: "string \<Rightarrow> string \<Rightarrow> string list" where
  "tokens word_buffer [] = (if 0 < length word_buffer then [word_buffer] else [])"
| "tokens word_buffer (c # rest) =
     (if isalpha c then
        tokens (if length word_buffer < MAX_WORD_LEN - 1 then word_buffer @ [tolower c]
                else word_buffer) rest
      else if 0 < length word_buffer then word_buffer # tokens [] rest
      else tokens word_buffer rest)"

text \<open>
  For each call of a sequence of \<open>insert_word\<close> calls, whether the call returned the
  table as it found it.
\<close>

fun unchanged :: "HashTable option \<times> allocator \<Rightarrow> string list \<Rightarrow> bool list" where
  "unchanged s [] = []"
| "unchanged s (w # ws) =
     (fst (insert_word (snd s) (fst s) (Some w)) = fst s)
       # unchanged (insert_word (snd s) (fst s) (Some w)) ws"

section \<open>Strings, hashing and the table invariant\<close>

lemma cstr_Nil: "cstr [] = []"
  by (simp add: cstr_def)

lemma cstr_Cons: "cstr (c # cs) = (if c = CHR 0x00 then [] else c # cstr cs)"
  by (simp add: cstr_def)

lemma cstr_idem: "cstr (cstr s) = cstr s"
  by (simp add: cstr_def)


lemma NUL_notin_cstr: "CHR 0x00 \<notin> set (cstr s)"
  by (induction s) (auto simp: cstr_Nil cstr_Cons)

lemma of_char_eq_0_iff: "(of_char c :: nat) = 0 \<longleftrightarrow> c = CHR 0x00"
  using of_char_eq_iff[of c "CHR 0x00", where ?'a = nat] by simp

lemma strcmp_eq_0_iff: "strcmp a b = 0 \<longleftrightarrow> cstr a = cstr b"
  by (induction a b rule: strcmp.induct) (auto simp: cstr_Nil cstr_Cons of_char_eq_0_iff)

lemma unat_of_char: "unat (of_char c :: 8 word) = of_char c"
proof -
  have "(of_char c :: 8 word) = of_nat (of_char c)" by (simp only: of_nat_of_char)
  then have "unat (of_char c :: 8 word) = (of_char c :: nat) mod 2 ^ 8"
    by (simp add: unat_of_nat)
  then show ?thesis by simp
qed

lemma sint_char_eq_0_iff: "sint (of_char c :: 8 word) = 0 \<longleftrightarrow> c = CHR 0x00"
proof
  assume "sint (of_char c :: 8 word) = 0"
  then have "word_of_int (sint (of_char c :: 8 word)) = (0 :: 8 word)" by simp
  then have "(of_char c :: 8 word) = 0" by simp
  then have "unat (of_char c :: 8 word) = 0" by simp
  then have "(of_char c :: nat) = 0" by (simp only: unat_of_char)
  then show "c = CHR 0x00" by (simp only: of_char_eq_0_iff)
next
  assume "c = CHR 0x00" then show "sint (of_char c :: 8 word) = 0" by simp
qed

lemma hash_loop_cstr: "hash_loop h (cstr w) = hash_loop h w"
  by (induction w arbitrary: h) (auto simp: cstr_Nil cstr_Cons sint_char_eq_0_iff Let_def)

lemma hash_cstr: "hash (cstr w) = hash w"
  by (simp add: hash_def hash_loop_cstr)

lemma bucket_index_cstr: "bucket_index ht (cstr w) = bucket_index ht w"
  by (simp add: bucket_index_def hash_cstr)

lemma bucket_index_less: "ht_ok ht \<Longrightarrow> bucket_index ht w < length (table ht)"
proof -
  assume ok: "ht_ok ht"
  then have "ht_size ht \<noteq> 0" by (auto simp: ht_ok_def)
  then have "0 < unat (ht_size ht)" by (simp add: unat_gt_0)
  then show ?thesis using ok by (simp add: bucket_index_def ht_ok_def unat_mod)
qed

lemma increment_None_iff:
  "increment_in_chain ch w = None \<longleftrightarrow> (\<forall>e \<in> set ch. cstr (word e) \<noteq> cstr w)"
  by (induction ch) (auto simp: strcmp_eq_0_iff)

lemma increment_Some_words:
  "increment_in_chain ch w = Some ch' \<Longrightarrow> map word ch' = map word ch"
  by (induction ch arbitrary: ch') (auto split: if_splits)

lemma increment_Some_split:
  "increment_in_chain ch w = Some ch' \<Longrightarrow>
     \<exists>pre e post. ch = pre @ e # post \<and> ch' = pre @ e\<lparr>count := count e + 1\<rparr> # post
        \<and> cstr (word e) = cstr w \<and> (\<forall>x \<in> set pre. cstr (word x) \<noteq> cstr w)"
proof (induction ch arbitrary: ch')
  case Nil
  then show ?case by simp
next
  case (Cons a ch)
  show ?case
  proof (cases "strcmp (word a) w = 0")
    case True
    with Cons.prems have "ch' = a\<lparr>count := count a + 1\<rparr> # ch" by simp
    with True show ?thesis
      by (intro exI[of _ "[]"] exI[of _ a] exI[of _ ch]) (simp add: strcmp_eq_0_iff)
  next
    case False
    with Cons.prems obtain r where r: "increment_in_chain ch w = Some r" "ch' = a # r"
      by auto
    from Cons.IH[OF r(1)] obtain pre e post where
      "ch = pre @ e # post" "r = pre @ e\<lparr>count := count e + 1\<rparr> # post"
      "cstr (word e) = cstr w" "\<forall>x \<in> set pre. cstr (word x) \<noteq> cstr w" by blast
    with False r(2) show ?thesis
      by (intro exI[of _ "a # pre"] exI[of _ e] exI[of _ post]) (simp add: strcmp_eq_0_iff)
  qed
qed


lemma bucket_index_table_update [simp]:
  "bucket_index (ht\<lparr>table := t\<rparr>) w = bucket_index ht w"
  by (simp add: bucket_index_def)

lemma insert_word_found:
  "increment_in_chain (table ht ! bucket_index ht w) w = Some ch \<Longrightarrow>
   insert_word al (Some ht) (Some w)
     = (Some (ht\<lparr>table := (table ht)[bucket_index ht w := ch]\<rparr>), al)"
  by (simp add: insert_word_def Let_def)

lemma insert_word_new:
  "increment_in_chain (table ht ! bucket_index ht w) w = None \<Longrightarrow>
   alloc al = (True, al1) \<Longrightarrow> alloc al1 = (True, al2) \<Longrightarrow>
   insert_word al (Some ht) (Some w)
     = (Some (ht\<lparr>table := (table ht)[bucket_index ht w :=
          \<lparr>word = cstr w, count = 1\<rparr> # table ht ! bucket_index ht w]\<rparr>), al2)"
  by (simp add: insert_word_def Let_def)

lemma insert_word_fail1:
  "increment_in_chain (table ht ! bucket_index ht w) w = None \<Longrightarrow>
   alloc al = (False, al1) \<Longrightarrow>
   insert_word al (Some ht) (Some w) = (Some ht, al1)"
  by (simp add: insert_word_def Let_def)

lemma insert_word_fail2:
  "increment_in_chain (table ht ! bucket_index ht w) w = None \<Longrightarrow>
   alloc al = (True, al1) \<Longrightarrow> alloc al1 = (False, al2) \<Longrightarrow>
   insert_word al (Some ht) (Some w) = (Some ht, al2)"
  by (simp add: insert_word_def Let_def)

lemma insert_word_shape:
  "\<exists>ch al'. insert_word al (Some ht) (Some w)
       = (Some (ht\<lparr>table := (table ht)[bucket_index ht w := ch]\<rparr>), al')
     \<and> (ch = table ht ! bucket_index ht w
        \<or> increment_in_chain (table ht ! bucket_index ht w) w = Some ch
        \<or> (increment_in_chain (table ht ! bucket_index ht w) w = None
            \<and> ch = \<lparr>word = cstr w, count = 1\<rparr> # table ht ! bucket_index ht w))"
proof (cases "increment_in_chain (table ht ! bucket_index ht w) w")
  case (Some ch)
  then show ?thesis using insert_word_found[OF Some] by blast
next
  case None
  obtain b1 al1 where a1: "alloc al = (b1, al1)" by (cases "alloc al")
  obtain b2 al2 where a2: "alloc al1 = (b2, al2)" by (cases "alloc al1")
  show ?thesis
  proof (cases b1)
    case False
    with a1 have "insert_word al (Some ht) (Some w) = (Some ht, al1)"
      using insert_word_fail1[OF None] by simp
    then have "insert_word al (Some ht) (Some w)
       = (Some (ht\<lparr>table := (table ht)[bucket_index ht w := table ht ! bucket_index ht w]\<rparr>), al1)"
      by simp
    then show ?thesis by blast
  next
    case True
    note b1 = this
    show ?thesis
    proof (cases b2)
      case False
      with a1 a2 b1 have "insert_word al (Some ht) (Some w) = (Some ht, al2)"
        using insert_word_fail2[OF None] by simp
      then have "insert_word al (Some ht) (Some w)
         = (Some (ht\<lparr>table := (table ht)[bucket_index ht w := table ht ! bucket_index ht w]\<rparr>), al2)"
        by simp
      then show ?thesis by blast
    next
      case True
      with a1 a2 b1 have "insert_word al (Some ht) (Some w)
         = (Some (ht\<lparr>table := (table ht)[bucket_index ht w :=
              \<lparr>word = cstr w, count = 1\<rparr> # table ht ! bucket_index ht w]\<rparr>), al2)"
        using insert_word_new[OF None, of al al1 al2] by simp
      with None show ?thesis by blast
    qed
  qed
qed

lemma ht_ok_update: "ht_ok ht \<Longrightarrow> ht_ok (ht\<lparr>table := (table ht)[i := ch]\<rparr>)"
  by (simp add: ht_ok_def)

lemma ht_inv_update:
  assumes inv: "ht_inv ht" and i: "i < length (table ht)"
    and ch: "\<forall>e \<in> set ch. bucket_index ht (word e) = i \<and> cstr (word e) = word e"
    and d: "distinct (map word ch)"
  shows "ht_inv (ht\<lparr>table := (table ht)[i := ch]\<rparr>)"
  using assms
  by (auto simp: ht_inv_def ht_ok_def placed_def chains_distinct_def nth_list_update)

lemma insert_word_inv:
  assumes inv: "ht_inv ht"
  shows "\<exists>ht' al'. insert_word al (Some ht) (Some w) = (Some ht', al') \<and> ht_inv ht'
           \<and> ht_size ht' = ht_size ht"
proof -
  let ?i = "bucket_index ht w"
  let ?b = "table ht ! ?i"
  from inv have ok: "ht_ok ht" by (simp add: ht_inv_def)
  then have i: "?i < length (table ht)" by (rule bucket_index_less)
  from inv i have b: "\<forall>e \<in> set ?b. bucket_index ht (word e) = ?i \<and> cstr (word e) = word e"
    by (simp add: ht_inv_def placed_def)
  from inv i have db: "distinct (map word ?b)"
    by (simp add: ht_inv_def chains_distinct_def)
  obtain ch al' where r: "insert_word al (Some ht) (Some w)
       = (Some (ht\<lparr>table := (table ht)[?i := ch]\<rparr>), al')"
    and c: "ch = ?b \<or> increment_in_chain ?b w = Some ch
        \<or> (increment_in_chain ?b w = None \<and> ch = \<lparr>word = cstr w, count = 1\<rparr> # ?b)"
    using insert_word_shape by blast
  have "(\<forall>e \<in> set ch. bucket_index ht (word e) = ?i \<and> cstr (word e) = word e)
          \<and> distinct (map word ch)"
  proof -
    consider (same) "ch = ?b" | (found) "increment_in_chain ?b w = Some ch"
      | (new) "increment_in_chain ?b w = None" "ch = \<lparr>word = cstr w, count = 1\<rparr> # ?b"
      using c by auto
    then show ?thesis
    proof cases
      case same
      with b db show ?thesis by simp
    next
      case found
      then have "map word ch = map word ?b" by (rule increment_Some_words)
      then have "word ` set ch = word ` set ?b" "distinct (map word ch) = distinct (map word ?b)"
        by (metis set_map, simp)
      with b db show ?thesis by (metis (no_types, lifting) imageE imageI)
    next
      case new
      from new(1) have "\<forall>e \<in> set ?b. cstr (word e) \<noteq> cstr w"
        by (simp add: increment_None_iff)
      with b have "cstr w \<notin> word ` set ?b" by force
      with new(2) b db show ?thesis
        by (auto simp: bucket_index_cstr cstr_idem)
    qed
  qed
  then have "ht_inv (ht\<lparr>table := (table ht)[?i := ch]\<rparr>)"
    using ht_inv_update[OF inv i] by blast
  with r show ?thesis by simp
qed

lemma ht_inv_empty_table: "1 \<le> sint n \<Longrightarrow> ht_inv (empty_table n)"
  by (simp add: ht_inv_def ht_ok_def placed_def chains_distinct_def empty_table_def)

lemma create_hash_table_Some:
  "create_hash_table al n = (Some ht, al') \<Longrightarrow> ht = empty_table n \<and> 1 \<le> sint n"
  by (auto simp: create_hash_table_def empty_table_def split: if_splits prod.splits bool.splits)



lemma alloc_never_fails: "never_fails al \<Longrightarrow> \<exists>al'. alloc al = (True, al') \<and> never_fails al'"
  by (cases al) (auto simp: never_fails_def)


lemma sint_of_nat_small:
  assumes "k < 2 ^ (LENGTH('a::len) - 1)"
  shows "sint (of_nat k :: 'a word) = int k"
proof -
  have "int k < 2 ^ (LENGTH('a) - 1)"
    using assms by (metis of_nat_less_iff of_nat_numeral of_nat_power)
  then have "signed_take_bit (LENGTH('a) - 1) (int k) = int k"
    by (intro signed_take_bit_int_eq_self) (auto intro: order_trans[of _ 0])
  moreover have "sint (word_of_int (int k) :: 'a word) = signed_take_bit (LENGTH('a) - 1) (int k)"
    by (rule sint_sbintrunc')
  ultimately show ?thesis by simp
qed

lemma sint_of_char_7bit:
  assumes "(of_char c :: nat) < 128"
  shows "sint (of_char c :: 8 word) = int (of_char c :: nat)"
proof -
  have "(of_char c :: 8 word) = of_nat (of_char c)" by (simp only: of_nat_of_char)
  moreover have "sint (of_nat (of_char c) :: 8 word) = int (of_char c)"
    using assms by (intro sint_of_nat_small) simp
  ultimately show ?thesis by simp
qed

lemma unat_djb2_step:
  "k < 256 \<Longrightarrow> unat ((push_bit 5 h + h) + (of_nat k :: 64 word)) = (unat h * 33 + k) mod 2 ^ 64"
proof -
  have "(push_bit 5 h + h) + (of_nat k :: 64 word) = of_nat (unat h * 33 + k)"
    by (simp add: push_bit_eq_mult)
  then show ?thesis by (simp only: unat_of_nat) simp
qed

lemma hash_loop_djb2:
  "\<forall>c \<in> set w. 0 < (of_char c :: nat) \<and> (of_char c :: nat) < 128 \<Longrightarrow>
   unat (hash_loop h w) = foldl (\<lambda>acc c. (acc * 33 + of_char c) mod 2 ^ 64) (unat h) w"
proof (induction w arbitrary: h)
  case Nil
  then show ?case by simp
next
  case (Cons c w)
  then have c: "0 < (of_char c :: nat)" "(of_char c :: nat) < 128" by simp_all
  then have s: "sint (of_char c :: 8 word) = int (of_char c :: nat)"
    by (simp add: sint_of_char_7bit)
  with c have nz: "sint (of_char c :: 8 word) \<noteq> 0" by simp
  have "hash_loop h (c # w) = hash_loop ((push_bit 5 h + h) + of_nat (of_char c)) w"
    using nz s by (simp add: Let_def)
  also have "unat \<dots> = foldl (\<lambda>acc c. (acc * 33 + of_char c) mod 2 ^ 64)
      (unat ((push_bit 5 h + h) + (of_nat (of_char c) :: 64 word))) w"
    using Cons.prems by (intro Cons.IH) simp
  also have "unat ((push_bit 5 h + h) + (of_nat (of_char c) :: 64 word))
      = (unat h * 33 + of_char c) mod 2 ^ 64"
    using c by (intro unat_djb2_step) simp
  finally show ?case by simp
qed

lemma unat_hash_djb2:
  assumes "\<forall>c \<in> set w. 0 < (of_char c :: nat) \<and> (of_char c :: nat) < 128"
  shows "unat (hash w) = djb2 w mod 2 ^ 32"
proof -
  have "unat (hash_loop 5381 w) = djb2 w"
    using hash_loop_djb2[OF assms, of 5381] by (simp add: djb2_def)
  then show ?thesis by (simp add: hash_def unsigned_ucast_eq take_bit_eq_mod unsigned_take_bit_eq)
qed


lemma insert_word_never_fails:
  assumes "never_fails al"
  shows "\<exists>ch al'. insert_word al (Some ht) (Some w)
       = (Some (ht\<lparr>table := (table ht)[bucket_index ht w := ch]\<rparr>), al') \<and> never_fails al'
     \<and> (increment_in_chain (table ht ! bucket_index ht w) w = Some ch
        \<or> (increment_in_chain (table ht ! bucket_index ht w) w = None
            \<and> ch = \<lparr>word = cstr w, count = 1\<rparr> # table ht ! bucket_index ht w))"
proof (cases "increment_in_chain (table ht ! bucket_index ht w) w")
  case (Some ch)
  with assms show ?thesis using insert_word_found[OF Some] by blast
next
  case None
  from alloc_never_fails[OF assms] obtain al1 where a1: "alloc al = (True, al1)" "never_fails al1"
    by blast
  from alloc_never_fails[OF a1(2)] obtain al2 where a2: "alloc al1 = (True, al2)" "never_fails al2"
    by blast
  from insert_word_new[OF None a1(1) a2(1)] a2(2) None show ?thesis by blast
qed

lemma insert_word_keeps_words:
  assumes "insert_word al (Some ht) (Some w) = (Some ht', al')" and "i < length (table ht)"
  shows "word ` set (table ht ! i) \<subseteq> word ` set (table ht' ! i)"
proof -
  let ?k = "bucket_index ht w"
  obtain ch a where r: "insert_word al (Some ht) (Some w)
       = (Some (ht\<lparr>table := (table ht)[?k := ch]\<rparr>), a)"
    and c: "ch = table ht ! ?k \<or> increment_in_chain (table ht ! ?k) w = Some ch
        \<or> (increment_in_chain (table ht ! ?k) w = None
            \<and> ch = \<lparr>word = cstr w, count = 1\<rparr> # table ht ! ?k)"
    using insert_word_shape by blast
  from c have "word ` set (table ht ! ?k) \<subseteq> word ` set ch"
    by (auto dest: increment_Some_words simp flip: set_map)
  moreover from r assms(1) have "table ht' = (table ht)[?k := ch]" by simp
  ultimately show ?thesis using assms(2) by (cases "i = ?k") (simp_all add: nth_list_update)
qed

lemma insert_word_adds_word:
  assumes "never_fails al" and "ht_inv ht"
    and "insert_word al (Some ht) (Some w) = (Some ht', al')"
  shows "cstr w \<in> word ` set (table ht' ! bucket_index ht w) \<and> never_fails al'"
proof -
  let ?k = "bucket_index ht w"
  from assms(2) have k: "?k < length (table ht)"
    by (simp add: ht_inv_def bucket_index_less)
  with assms(2) have norm: "\<forall>e \<in> set (table ht ! ?k). cstr (word e) = word e"
    by (simp add: ht_inv_def placed_def)
  obtain ch a where r: "insert_word al (Some ht) (Some w)
       = (Some (ht\<lparr>table := (table ht)[?k := ch]\<rparr>), a)" and nf: "never_fails a"
    and c: "increment_in_chain (table ht ! ?k) w = Some ch
        \<or> (increment_in_chain (table ht ! ?k) w = None
            \<and> ch = \<lparr>word = cstr w, count = 1\<rparr> # table ht ! ?k)"
    using insert_word_never_fails[OF assms(1)] by blast
  have "cstr w \<in> word ` set ch"
  proof -
    consider (found) "increment_in_chain (table ht ! ?k) w = Some ch"
      | (new) "ch = \<lparr>word = cstr w, count = 1\<rparr> # table ht ! ?k" using c by auto
    then show ?thesis
    proof cases
      case found
      from increment_Some_split[OF found] obtain pre e post where
        "table ht ! ?k = pre @ e # post"
        "ch = pre @ e\<lparr>count := count e + 1\<rparr> # post" "cstr (word e) = cstr w" by blast
      moreover from this(1) norm have "cstr (word e) = word e" by simp
      ultimately show ?thesis by force
    next
      case new
      then show ?thesis by simp
    qed
  qed
  moreover from r assms(3) have "table ht' = (table ht)[?k := ch]" "al' = a" by simp_all
  ultimately show ?thesis using k nf by simp
qed


lemma bucket_index_size_cong: "ht_size a = ht_size b \<Longrightarrow> bucket_index a w = bucket_index b w"
  by (simp add: bucket_index_def)

lemma ht_ok_length_cong: "ht_ok a \<Longrightarrow> ht_ok b \<Longrightarrow> ht_size a = ht_size b \<Longrightarrow>
    length (table a) = length (table b)"
  by (simp add: ht_ok_def)

lemma insert_words_present:
  assumes "ht_inv ht" and "insert_words (Some ht, al) ws = (htp, al')"
  shows "\<exists>ht'. htp = Some ht' \<and> ht_inv ht' \<and> ht_size ht' = ht_size ht
     \<and> (\<forall>i < length (table ht). word ` set (table ht ! i) \<subseteq> word ` set (table ht' ! i))
     \<and> (never_fails al \<longrightarrow> never_fails al'
           \<and> (\<forall>w \<in> set ws. cstr w \<in> word ` set (table ht' ! bucket_index ht w)))"
  using assms
proof (induction ws arbitrary: ht al)
  case Nil
  then show ?case by auto
next
  case (Cons w ws)
  from insert_word_inv[OF Cons.prems(1)] obtain h1 a1 where
    1: "insert_word al (Some ht) (Some w) = (Some h1, a1)" "ht_inv h1" "ht_size h1 = ht_size ht"
    by blast
  with Cons.prems(2) have 2: "insert_words (Some h1, a1) ws = (htp, al')" by simp
  from Cons.IH[OF 1(2) 2] obtain h2 where
    3: "htp = Some h2" "ht_inv h2" "ht_size h2 = ht_size h1"
       "\<forall>i < length (table h1). word ` set (table h1 ! i) \<subseteq> word ` set (table h2 ! i)"
       "never_fails a1 \<longrightarrow> never_fails al'
           \<and> (\<forall>w \<in> set ws. cstr w \<in> word ` set (table h2 ! bucket_index h1 w))"
    by blast
  have len: "length (table h1) = length (table ht)"
    using 1(2,3) Cons.prems(1) by (simp add: ht_inv_def ht_ok_def)
  have bi: "\<And>x. bucket_index h1 x = bucket_index ht x"
    using 1(3) by (rule bucket_index_size_cong)
  have k: "bucket_index ht w < length (table ht)"
    using Cons.prems(1) by (simp add: ht_inv_def bucket_index_less)
  have mono: "\<forall>i < length (table ht). word ` set (table ht ! i) \<subseteq> word ` set (table h2 ! i)"
  proof (intro allI impI)
    fix i assume i: "i < length (table ht)"
    from 3(4) i len have "word ` set (table h1 ! i) \<subseteq> word ` set (table h2 ! i)" by simp
    with insert_word_keeps_words[OF 1(1) i]
    show "word ` set (table ht ! i) \<subseteq> word ` set (table h2 ! i)" by (rule subset_trans)
  qed
  have pres: "never_fails al \<longrightarrow> never_fails al'
           \<and> (\<forall>x \<in> set (w # ws). cstr x \<in> word ` set (table h2 ! bucket_index ht x))"
  proof
    assume nf: "never_fails al"
    from insert_word_adds_word[OF nf Cons.prems(1) 1(1)]
    have a: "cstr w \<in> word ` set (table h1 ! bucket_index ht w)" "never_fails a1" by simp_all
    from 3(4) k len have "word ` set (table h1 ! bucket_index ht w)
        \<subseteq> word ` set (table h2 ! bucket_index ht w)" by simp
    with a(1) have "cstr w \<in> word ` set (table h2 ! bucket_index ht w)" by (rule subsetD[rotated])
    with a(2) 3(5) bi show "never_fails al'
           \<and> (\<forall>x \<in> set (w # ws). cstr x \<in> word ` set (table h2 ! bucket_index ht x))"
      by simp
  qed
  from 3(1,2,3) 1(3) mono pres show ?case by simp
qed

lemma replicate_3: "replicate 3 x = [x, x, x]"
  by (simp add: numeral_3_eq_3)

section \<open>The file that cannot be opened\<close>

text \<open>
  C5. If the file cannot be opened, \<open>analyze_file\<close> returns the failure value \<open>-1\<close> and
  changes nothing: the \<open>AppStats\<close> (word store, frequency table, the three counters) and
  the allocator are returned as the caller supplied them.
\<close>

theorem analyze_file_open_failure:
  "fs (filename stats) = None \<Longrightarrow> analyze_file fs al stats = (- 1, stats, al)"
  by (simp add: analyze_file_def)

theorem analyze_file_open_failure_witness:
  "analyze_file (\<lambda>path. None) [] (init_stats ''missing.txt'' (Some (empty_table 4096)))
     = (- 1, init_stats ''missing.txt'' (Some (empty_table 4096)), [])"
  by (rule analyze_file_open_failure) simp

section \<open>The bucket of an entry\<close>

lemma unat_hash_accumulator: "unat (hash w) = unat (hash_loop 5381 w) mod 2 ^ 32"
  by (simp add: hash_def unsigned_ucast_eq take_bit_eq_mod unsigned_take_bit_eq)

lemma mod_low_bits: "(m :: nat) dvd 2 ^ 32 \<Longrightarrow> a mod 2 ^ 32 mod m = a mod m"
  by (rule mod_mod_cancel)

text \<open>
  C4, as the code has it. For every table that \<open>create_hash_table\<close> returned for \<open>n\<close>
  buckets and every sequence of words inserted since, whatever the allocator did: the
  table still has \<open>n\<close> buckets, and every entry lies in the bucket whose index is the
  value \<open>hash\<close> returns for its word, modulo \<open>n\<close>. That value is an \<open>unsigned int\<close>: the
  low 32 bits of the 64-bit accumulator, so the index is the accumulator modulo \<open>2^32\<close>,
  modulo \<open>n\<close>. When \<open>n\<close> divides \<open>2^32\<close> (as the default 4096
  does) the index is the 64-bit accumulator itself modulo \<open>n\<close>. For a word of 7-bit bytes
  the accumulator is the one of the specification, \<open>djb2\<close>: the index is
  \<open>(djb2 word mod 2^32) mod n\<close>, and \<open>djb2 word mod n\<close> when \<open>n\<close> divides \<open>2^32\<close>. When no
  allocation fails every inserted word has its entry in that bucket.
\<close>

theorem created_store_bucket_index:
  assumes "create_hash_table al0 n = (Some ht0, al1)"
    and "insert_words (Some ht0, al1) ws = (htp, al2)"
  shows "\<exists>ht. htp = Some ht \<and> length (table ht) = unat n
     \<and> (\<forall>i < unat n. \<forall>e \<in> set (table ht ! i).
            i = unat (hash (word e)) mod unat n
          \<and> i = unat (hash_loop 5381 (word e)) mod 2 ^ 32 mod unat n
          \<and> (unat n dvd 2 ^ 32 \<longrightarrow> i = unat (hash_loop 5381 (word e)) mod unat n)
          \<and> ((\<forall>c \<in> set (word e). (of_char c :: nat) < 128)
               \<longrightarrow> i = djb2 (word e) mod 2 ^ 32 mod unat n
                 \<and> (unat n dvd 2 ^ 32 \<longrightarrow> i = djb2 (word e) mod unat n)))
     \<and> (never_fails al1 \<longrightarrow>
           (\<forall>w \<in> set ws. \<exists>e \<in> set (table ht ! (unat (hash w) mod unat n)). word e = cstr w))"
proof -
  from create_hash_table_Some[OF assms(1)] have ht0: "ht0 = empty_table n" "1 \<le> sint n"
    by simp_all
  then have inv0: "ht_inv ht0" by (simp add: ht_inv_empty_table)
  from insert_words_present[OF inv0 assms(2)] obtain ht where
    ht: "htp = Some ht" "ht_inv ht" "ht_size ht = ht_size ht0"
      "never_fails al1 \<longrightarrow> never_fails al2
           \<and> (\<forall>w \<in> set ws. cstr w \<in> word ` set (table ht ! bucket_index ht0 w))"
    by blast
  from ht0 have sz: "ht_size ht0 = n" by (simp add: empty_table_def)
  with ht(2,3) have len: "length (table ht) = unat n" by (simp add: ht_inv_def ht_ok_def)
  have bi: "\<And>x. bucket_index ht x = unat (hash x) mod unat n"
    using ht(3) sz by (simp add: bucket_index_def unat_mod)
  have bi0: "\<And>x. bucket_index ht0 x = unat (hash x) mod unat n"
    using sz by (simp add: bucket_index_def unat_mod)
  have placed: "\<forall>i < unat n. \<forall>e \<in> set (table ht ! i).
            i = unat (hash (word e)) mod unat n
          \<and> i = unat (hash_loop 5381 (word e)) mod 2 ^ 32 mod unat n
          \<and> (unat n dvd 2 ^ 32 \<longrightarrow> i = unat (hash_loop 5381 (word e)) mod unat n)
          \<and> ((\<forall>c \<in> set (word e). (of_char c :: nat) < 128)
               \<longrightarrow> i = djb2 (word e) mod 2 ^ 32 mod unat n
                 \<and> (unat n dvd 2 ^ 32 \<longrightarrow> i = djb2 (word e) mod unat n))"
  proof (intro allI impI ballI)
    fix i e assume i: "i < unat n" and e: "e \<in> set (table ht ! i)"
    with ht(2) len have p: "bucket_index ht (word e) = i" "cstr (word e) = word e"
      by (simp_all add: ht_inv_def placed_def)
    from p(1) have 1: "i = unat (hash (word e)) mod unat n" by (simp add: bi)
    from 1 have low: "i = unat (hash_loop 5381 (word e)) mod 2 ^ 32 mod unat n"
      by (simp only: unat_hash_accumulator)
    have 2: "unat n dvd 2 ^ 32 \<longrightarrow> i = unat (hash_loop 5381 (word e)) mod unat n"
    proof
      assume d: "unat n dvd 2 ^ 32"
      have "i = unat (hash_loop 5381 (word e)) mod 2 ^ 32 mod unat n" by (rule low)
      also have "\<dots> = unat (hash_loop 5381 (word e)) mod unat n"
        using d by (rule mod_low_bits)
      finally show "i = unat (hash_loop 5381 (word e)) mod unat n" .
    qed
    have 3: "(\<forall>c \<in> set (word e). (of_char c :: nat) < 128)
               \<longrightarrow> i = djb2 (word e) mod 2 ^ 32 mod unat n
                 \<and> (unat n dvd 2 ^ 32 \<longrightarrow> i = djb2 (word e) mod unat n)"
    proof
      assume seven: "\<forall>c \<in> set (word e). (of_char c :: nat) < 128"
      have "CHR 0x00 \<notin> set (word e)" using NUL_notin_cstr[of "word e"] p(2) by simp
      then have "\<forall>c \<in> set (word e). 0 < (of_char c :: nat)"
        by (metis of_char_eq_0_iff gr0I)
      with seven have "unat (hash (word e)) = djb2 (word e) mod 2 ^ 32"
        by (intro unat_hash_djb2) simp
      with 1 have a: "i = djb2 (word e) mod 2 ^ 32 mod unat n" by simp
      have "unat n dvd 2 ^ 32 \<longrightarrow> i = djb2 (word e) mod unat n"
      proof
        assume d: "unat n dvd 2 ^ 32"
        from a mod_low_bits[OF d, of "djb2 (word e)"]
        show "i = djb2 (word e) mod unat n" by simp
      qed
      with a show "i = djb2 (word e) mod 2 ^ 32 mod unat n
                 \<and> (unat n dvd 2 ^ 32 \<longrightarrow> i = djb2 (word e) mod unat n)" by simp
    qed
    from 1 low 2 3 show "i = unat (hash (word e)) mod unat n
          \<and> i = unat (hash_loop 5381 (word e)) mod 2 ^ 32 mod unat n
          \<and> (unat n dvd 2 ^ 32 \<longrightarrow> i = unat (hash_loop 5381 (word e)) mod unat n)
          \<and> ((\<forall>c \<in> set (word e). (of_char c :: nat) < 128)
               \<longrightarrow> i = djb2 (word e) mod 2 ^ 32 mod unat n
                 \<and> (unat n dvd 2 ^ 32 \<longrightarrow> i = djb2 (word e) mod unat n))"
      by blast
  qed
  have present: "never_fails al1 \<longrightarrow>
           (\<forall>w \<in> set ws. \<exists>e \<in> set (table ht ! (unat (hash w) mod unat n)). word e = cstr w)"
    using ht(4) by (fastforce simp: bi0)
  from ht(1) len placed present show ?thesis by blast
qed

text \<open>
  The witness: a table of 3 buckets, where "hello" and "cat" collide in bucket 2, and a
  table of the default 4096 buckets, where "hello" and "cat" lie in the buckets
  \<open>djb2 word mod 4096\<close>.
\<close>

theorem created_store_bucket_index_witness:
  "(\<exists>ht. Some \<lparr>ht_size = 3, table = [[], [], [\<lparr>word = ''hello'', count = 2\<rparr>, \<lparr>word = ''cat'', count = 1\<rparr>]]\<rparr> = Some ht
     \<and> length (table ht) = unat (3 :: 32 word)
     \<and> (\<forall>i < unat (3 :: 32 word). \<forall>e \<in> set (table ht ! i).
            i = unat (hash (word e)) mod unat (3 :: 32 word)
          \<and> ((\<forall>c \<in> set (word e). (of_char c :: nat) < 128)
               \<longrightarrow> i = djb2 (word e) mod 2 ^ 32 mod unat (3 :: 32 word)))
     \<and> (\<forall>w \<in> set [''cat'', ''hello'', ''hello''].
              \<exists>e \<in> set (table ht ! (unat (hash w) mod unat (3 :: 32 word))). word e = cstr w))
   \<and> (\<exists>ht al2. insert_words (Some (empty_table 4096), []) [''hello'', ''cat''] = (Some ht, al2)
        \<and> length (table ht) = 4096
        \<and> (\<forall>i < 4096. \<forall>e \<in> set (table ht ! i).
              (\<forall>c \<in> set (word e). (of_char c :: nat) < 128) \<longrightarrow> i = djb2 (word e) mod 4096)
        \<and> (\<exists>e \<in> set (table ht ! (djb2 ''hello'' mod 4096)). word e = ''hello'')
        \<and> (\<exists>e \<in> set (table ht ! (djb2 ''cat'' mod 4096)). word e = ''cat''))"
proof -
  have nf: "never_fails []" by (simp add: never_fails_def)
  have c3: "create_hash_table [] 3 = (Some (empty_table 3), [])"
    by (simp add: create_hash_table_def empty_table_def)
  have i3: "insert_words (Some (empty_table 3), []) [''cat'', ''hello'', ''hello'']
    = (Some \<lparr>ht_size = 3, table = [[], [], [\<lparr>word = ''hello'', count = 2\<rparr>, \<lparr>word = ''cat'', count = 1\<rparr>]]\<rparr>, [])"
    by (simp add: insert_word_def empty_table_def bucket_index_def hash_def cstr_def Let_def
        replicate_3)
  from created_store_bucket_index[OF c3 i3] nf
  have small: "\<exists>ht. Some \<lparr>ht_size = 3, table = [[], [], [\<lparr>word = ''hello'', count = 2\<rparr>, \<lparr>word = ''cat'', count = 1\<rparr>]]\<rparr> = Some ht
     \<and> length (table ht) = unat (3 :: 32 word)
     \<and> (\<forall>i < unat (3 :: 32 word). \<forall>e \<in> set (table ht ! i).
            i = unat (hash (word e)) mod unat (3 :: 32 word)
          \<and> ((\<forall>c \<in> set (word e). (of_char c :: nat) < 128)
               \<longrightarrow> i = djb2 (word e) mod 2 ^ 32 mod unat (3 :: 32 word)))
     \<and> (\<forall>w \<in> set [''cat'', ''hello'', ''hello''].
              \<exists>e \<in> set (table ht ! (unat (hash w) mod unat (3 :: 32 word))). word e = cstr w)"
    by blast
  have c: "create_hash_table [] 4096 = (Some (empty_table 4096), [])"
    by (simp add: create_hash_table_def empty_table_def)
  obtain htp al2 where
    i: "insert_words (Some (empty_table 4096), []) [''hello'', ''cat''] = (htp, al2)"
    by (cases "insert_words (Some (empty_table 4096), []) [''hello'', ''cat'']")
  have d: "unat (4096 :: 32 word) dvd 2 ^ 32" by simp
  from created_store_bucket_index[OF c i] nf d obtain ht where
    ht: "htp = Some ht" "length (table ht) = unat (4096 :: 32 word)"
      "\<forall>i < unat (4096 :: 32 word). \<forall>e \<in> set (table ht ! i).
          (\<forall>c \<in> set (word e). (of_char c :: nat) < 128)
             \<longrightarrow> i = djb2 (word e) mod unat (4096 :: 32 word)"
      "\<forall>w \<in> set [''hello'', ''cat''].
          \<exists>e \<in> set (table ht ! (unat (hash w) mod unat (4096 :: 32 word))). word e = cstr w"
    by blast
  have h: "unat (hash ''hello'') mod 4096 = djb2 ''hello'' mod 4096"
    "unat (hash ''cat'') mod 4096 = djb2 ''cat'' mod 4096"
    by (simp_all add: hash_def djb2_def)
  from ht(4) h have "\<exists>e \<in> set (table ht ! (djb2 ''hello'' mod 4096)). word e = ''hello''"
    "\<exists>e \<in> set (table ht ! (djb2 ''cat'' mod 4096)). word e = ''cat''"
    by (simp_all add: cstr_def)
  with i ht(1,2,3) have "\<exists>ht al2. insert_words (Some (empty_table 4096), []) [''hello'', ''cat''] = (Some ht, al2)
        \<and> length (table ht) = 4096
        \<and> (\<forall>i < 4096. \<forall>e \<in> set (table ht ! i).
              (\<forall>c \<in> set (word e). (of_char c :: nat) < 128) \<longrightarrow> i = djb2 (word e) mod 4096)
        \<and> (\<exists>e \<in> set (table ht ! (djb2 ''hello'' mod 4096)). word e = ''hello'')
        \<and> (\<exists>e \<in> set (table ht ! (djb2 ''cat'' mod 4096)). word e = ''cat'')"
    by simp
  with small show ?thesis by (rule conjI)
qed

text \<open>
  The claim as stated, with the index taken from the 64-bit accumulator, fails for a
  table of 3 buckets and the word "hello": the accumulator is 210714636441, which is 0
  modulo 3, and the entry is in bucket 2.
\<close>

theorem bucket_index_spec_counterexample:
  "insert_words (fst (create_hash_table [] 3), []) [''hello'']
     = (Some \<lparr>ht_size = 3, table = [[], [], [\<lparr>word = ''hello'', count = 1\<rparr>]]\<rparr>, [])
   \<and> djb2 ''hello'' mod 3 = 0"
  by (simp add: create_hash_table_def insert_word_def bucket_index_def hash_def cstr_def
      djb2_def Let_def replicate_3)

lemma sint_succ_32:
  fixes c :: "32 word"
  assumes "sint c \<noteq> 2147483647"
  shows "sint (c + 1) = sint c + 1"
proof -
  have "sint c < 2 ^ (LENGTH(32) - 1)" by (rule sint_lt)
  then have up: "sint c + 1 < 2 ^ 31" using assms by simp
  have "- (2 ^ (LENGTH(32) - 1)) \<le> sint c" by (rule sint_ge)
  then have lo: "- (2 ^ 31) \<le> sint c + 1" by simp
  have "sint (c + 1) = signed_take_bit (LENGTH(32) - 1) (sint c + sint (1 :: 32 word))"
    by (rule sint_word_ariths)
  also have "\<dots> = signed_take_bit 31 (sint c + 1)" by simp
  also have "\<dots> = sint c + 1" using lo up by (rule signed_take_bit_int_eq_self)
  finally show ?thesis .
qed

lemma bumped_refl: "bumped w e e"
  by (simp add: bumped_def)

lemma increment_Some_bumped:
  "increment_in_chain old w = Some ch \<Longrightarrow> list_all2 (bumped w) old ch"
proof (induction old arbitrary: ch)
  case Nil
  then show ?case by simp
next
  case (Cons a old)
  show ?case
  proof (cases "strcmp (word a) w = 0")
    case True
    with Cons.prems have "ch = a\<lparr>count := count a + 1\<rparr> # old" by simp
    moreover have "bumped w a (a\<lparr>count := count a + 1\<rparr>)"
      using True by (simp add: bumped_def strcmp_eq_0_iff)
    moreover have "list_all2 (bumped w) old old"
      by (simp add: list_all2_same bumped_refl)
    ultimately show ?thesis by simp
  next
    case False
    with Cons.prems obtain r where r: "increment_in_chain old w = Some r" "ch = a # r"
      by auto
    from Cons.IH[OF r(1)] r(2) show ?thesis by (simp add: bumped_refl)
  qed
qed

lemma increment_Some_filter:
  "increment_in_chain old w = Some ch \<Longrightarrow>
     filter (\<lambda>e. cstr (word e) \<noteq> cstr w) ch = filter (\<lambda>e. cstr (word e) \<noteq> cstr w) old"
proof (induction old arbitrary: ch)
  case Nil
  then show ?case by simp
next
  case (Cons a old)
  show ?case
  proof (cases "strcmp (word a) w = 0")
    case True
    with Cons.prems have "ch = a\<lparr>count := count a + 1\<rparr> # old" by simp
    with True show ?thesis by (simp add: strcmp_eq_0_iff)
  next
    case False
    with Cons.prems obtain r where r: "increment_in_chain old w = Some r" "ch = a # r"
      by auto
    from Cons.IH[OF r(1)] r(2) show ?thesis by simp
  qed
qed

lemma chain_frame:
  assumes "ch = old \<or> increment_in_chain old w = Some ch
        \<or> (increment_in_chain old w = None \<and> ch = \<lparr>word = cstr w, count = 1\<rparr> # old)"
  shows "filter (\<lambda>e. cstr (word e) \<noteq> cstr w) ch = filter (\<lambda>e. cstr (word e) \<noteq> cstr w) old
    \<and> (\<exists>d. length ch = d + length old \<and> (\<forall>j < length old. bumped w (old ! j) (ch ! (d + j))))"
proof -
  consider (same) "ch = old" | (found) "increment_in_chain old w = Some ch"
    | (new) "ch = \<lparr>word = cstr w, count = 1\<rparr> # old"
    using assms by auto
  then show ?thesis
  proof cases
    case same
    then have "length ch = 0 + length old \<and> (\<forall>j < length old. bumped w (old ! j) (ch ! (0 + j)))"
      by (simp add: bumped_refl)
    with same show ?thesis by blast
  next
    case found
    from increment_Some_bumped[OF found]
    have "length ch = 0 + length old \<and> (\<forall>j < length old. bumped w (old ! j) (ch ! (0 + j)))"
      by (simp add: list_all2_conv_all_nth)
    with increment_Some_filter[OF found] show ?thesis by blast
  next
    case new
    then have "length ch = 1 + length old \<and> (\<forall>j < length old. bumped w (old ! j) (ch ! (1 + j)))"
      by (simp add: bumped_refl)
    moreover from new have "filter (\<lambda>e. cstr (word e) \<noteq> cstr w) ch
        = filter (\<lambda>e. cstr (word e) \<noteq> cstr w) old"
      by (simp add: cstr_idem)
    ultimately show ?thesis by blast
  qed
qed

lemma bumped_word: "bumped w e e' \<Longrightarrow> word e' = word e"
  by (simp add: bumped_def)

lemma bumped_not_decreased:
  "bumped w e e' \<Longrightarrow> sint (count e) \<noteq> 2147483647 \<Longrightarrow> sint (count e) \<le> sint (count e')"
  by (auto simp: bumped_def sint_succ_32)

lemma distinct_concat_indexed:
  assumes "\<forall>i < length xss. distinct (xss ! i)"
    and "\<forall>i < length xss. \<forall>x \<in> set (xss ! i). f x = i"
  shows "distinct (concat xss)"
  using assms
proof (induction xss rule: rev_induct)
  case Nil
  then show ?case by simp
next
  case (snoc ys xss)
  have pre: "\<forall>i < length xss. (xss @ [ys]) ! i = xss ! i" by (simp add: nth_append)
  from snoc.prems(1) pre have d1: "\<forall>i < length xss. distinct (xss ! i)"
    by (metis length_append_singleton less_Suc_eq)
  from snoc.prems(2) pre have f1: "\<forall>i < length xss. \<forall>x \<in> set (xss ! i). f x = i"
    by (metis length_append_singleton less_Suc_eq)
  from snoc.IH[OF d1 f1] have dc: "distinct (concat xss)" .
  from snoc.prems(1) have dy: "distinct ys"
    by (metis length_append_singleton lessI nth_append_length)
  from snoc.prems(2) have fy: "\<forall>x \<in> set ys. f x = length xss"
    by (metis length_append_singleton lessI nth_append_length)
  have "set (concat xss) \<inter> set ys = {}"
  proof (rule ccontr)
    assume "set (concat xss) \<inter> set ys \<noteq> {}"
    then obtain x where x: "x \<in> set (concat xss)" "x \<in> set ys" by blast
    from x(1) obtain zs where "zs \<in> set xss" "x \<in> set zs" by auto
    then obtain i where "i < length xss" "x \<in> set (xss ! i)"
      by (metis in_set_conv_nth)
    with f1 have "f x < length xss" by auto
    with fy x(2) show False by auto
  qed
  with dc dy show ?case by simp
qed

lemma distinct_entries: "ht_inv ht \<Longrightarrow> distinct (map word (entries ht))"
proof -
  assume inv: "ht_inv ht"
  have "map word (entries ht) = concat (map (map word) (table ht))"
    by (simp add: entries_def map_concat)
  moreover have "distinct (concat (map (map word) (table ht)))"
  proof (rule distinct_concat_indexed[where f = "bucket_index ht"])
    show "\<forall>i < length (map (map word) (table ht)). distinct (map (map word) (table ht) ! i)"
      using inv by (simp add: ht_inv_def chains_distinct_def)
    show "\<forall>i < length (map (map word) (table ht)).
        \<forall>x \<in> set (map (map word) (table ht) ! i). bucket_index ht x = i"
      using inv by (auto simp: ht_inv_def placed_def)
  qed
  ultimately show ?thesis by simp
qed

section \<open>What an insertion leaves alone\<close>

text \<open>
  C9, as the code has it. For every valid table and every word \<open>w\<close>, \<open>insert_word\<close>
  keeps the size and the number of buckets; in every bucket the entries for words other
  than \<open>w\<close> are the same entries in the same order (same word, same count, none added,
  none removed); every old entry is still there, in its bucket, behind at most one new
  node, with its word unchanged, and its count has not decreased unless it was
  \<open>INT_MAX\<close> = 2147483647 before the call.
\<close>

theorem insert_word_frame:
  assumes "ht_ok ht"
  shows "\<exists>ht' al'. insert_word al (Some ht) (Some w) = (Some ht', al')
     \<and> ht_size ht' = ht_size ht \<and> length (table ht') = length (table ht)
     \<and> (\<forall>i < length (table ht).
          filter (\<lambda>e. cstr (word e) \<noteq> cstr w) (table ht' ! i)
            = filter (\<lambda>e. cstr (word e) \<noteq> cstr w) (table ht ! i)
        \<and> (\<exists>d. length (table ht' ! i) = d + length (table ht ! i)
             \<and> (\<forall>j < length (table ht ! i).
                   word (table ht' ! i ! (d + j)) = word (table ht ! i ! j)
                 \<and> (sint (count (table ht ! i ! j)) \<noteq> 2147483647 \<longrightarrow>
                      sint (count (table ht ! i ! j)) \<le> sint (count (table ht' ! i ! (d + j)))))))"
proof -
  let ?k = "bucket_index ht w"
  let ?P = "\<lambda>e. cstr (word e) \<noteq> cstr w"
  obtain ch a where r: "insert_word al (Some ht) (Some w)
       = (Some (ht\<lparr>table := (table ht)[?k := ch]\<rparr>), a)"
    and c: "ch = table ht ! ?k \<or> increment_in_chain (table ht ! ?k) w = Some ch
        \<or> (increment_in_chain (table ht ! ?k) w = None
            \<and> ch = \<lparr>word = cstr w, count = 1\<rparr> # table ht ! ?k)"
    using insert_word_shape by blast
  let ?ht' = "ht\<lparr>table := (table ht)[?k := ch]\<rparr>"
  from chain_frame[OF c] obtain d where
    f: "filter ?P ch = filter ?P (table ht ! ?k)"
    and d: "length ch = d + length (table ht ! ?k)"
      "\<forall>j < length (table ht ! ?k). bumped w (table ht ! ?k ! j) (ch ! (d + j))"
    by blast
  have "\<forall>i < length (table ht).
          filter ?P (table ?ht' ! i) = filter ?P (table ht ! i)
        \<and> (\<exists>d. length (table ?ht' ! i) = d + length (table ht ! i)
             \<and> (\<forall>j < length (table ht ! i).
                   word (table ?ht' ! i ! (d + j)) = word (table ht ! i ! j)
                 \<and> (sint (count (table ht ! i ! j)) \<noteq> 2147483647 \<longrightarrow>
                      sint (count (table ht ! i ! j)) \<le> sint (count (table ?ht' ! i ! (d + j))))))"
  proof (intro allI impI)
    fix i assume i: "i < length (table ht)"
    show "filter ?P (table ?ht' ! i) = filter ?P (table ht ! i)
        \<and> (\<exists>d. length (table ?ht' ! i) = d + length (table ht ! i)
             \<and> (\<forall>j < length (table ht ! i).
                   word (table ?ht' ! i ! (d + j)) = word (table ht ! i ! j)
                 \<and> (sint (count (table ht ! i ! j)) \<noteq> 2147483647 \<longrightarrow>
                      sint (count (table ht ! i ! j)) \<le> sint (count (table ?ht' ! i ! (d + j))))))"
    proof (cases "i = ?k")
      case True
      with i have n: "table ?ht' ! i = ch" by simp
      have "\<forall>j < length (table ht ! i).
                   word (ch ! (d + j)) = word (table ht ! i ! j)
                 \<and> (sint (count (table ht ! i ! j)) \<noteq> 2147483647 \<longrightarrow>
                      sint (count (table ht ! i ! j)) \<le> sint (count (ch ! (d + j))))"
        using d(2) True by (auto intro: bumped_word bumped_not_decreased)
      with f d(1) True n show ?thesis by auto
    next
      case False
      then have n: "table ?ht' ! i = table ht ! i" by simp
      have "length (table ht ! i) = 0 + length (table ht ! i)
             \<and> (\<forall>j < length (table ht ! i).
                   word (table ht ! i ! (0 + j)) = word (table ht ! i ! j)
                 \<and> (sint (count (table ht ! i ! j)) \<noteq> 2147483647 \<longrightarrow>
                      sint (count (table ht ! i ! j)) \<le> sint (count (table ht ! i ! (0 + j)))))"
        by simp
      with n show ?thesis by (metis (no_types, lifting))
    qed
  qed
  with r show ?thesis by simp
qed

theorem insert_word_frame_witness:
  "\<exists>ht' al'. insert_word [] (Some \<lparr>ht_size = 3, table =
         [[], [], [\<lparr>word = ''hello'', count = 2\<rparr>, \<lparr>word = ''cat'', count = 1\<rparr>]]\<rparr>) (Some ''cat'')
       = (Some ht', al')
     \<and> ht_size ht' = 3 \<and> length (table ht') = 3
     \<and> table ht' ! 2 = [\<lparr>word = ''hello'', count = 2\<rparr>, \<lparr>word = ''cat'', count = 2\<rparr>]
     \<and> filter (\<lambda>e. cstr (word e) \<noteq> cstr ''cat'') (table ht' ! 2) = [\<lparr>word = ''hello'', count = 2\<rparr>]"
proof -
  let ?ht = "\<lparr>ht_size = 3, table =
         [[], [], [\<lparr>word = ''hello'', count = 2\<rparr>, \<lparr>word = ''cat'', count = 1\<rparr>]]\<rparr>"
  have ok: "ht_ok ?ht" by (simp add: ht_ok_def)
  from insert_word_frame[OF ok, of "[]" "''cat''"] obtain ht' al' where
    r: "insert_word [] (Some ?ht) (Some ''cat'') = (Some ht', al')"
      "ht_size ht' = ht_size ?ht" "length (table ht') = length (table ?ht)"
      "\<forall>i < length (table ?ht).
          filter (\<lambda>e. cstr (word e) \<noteq> cstr ''cat'') (table ht' ! i)
            = filter (\<lambda>e. cstr (word e) \<noteq> cstr ''cat'') (table ?ht ! i)"
    by blast
  from r(4) have "filter (\<lambda>e. cstr (word e) \<noteq> cstr ''cat'') (table ht' ! 2)
      = filter (\<lambda>e. cstr (word e) \<noteq> cstr ''cat'') (table ?ht ! 2)" by simp
  then have f: "filter (\<lambda>e. cstr (word e) \<noteq> cstr ''cat'') (table ht' ! 2)
      = [\<lparr>word = ''hello'', count = 2\<rparr>]" by (simp add: cstr_def)
  from r(1) have "table ht' ! 2 = [\<lparr>word = ''hello'', count = 2\<rparr>, \<lparr>word = ''cat'', count = 2\<rparr>]"
    by (auto simp: insert_word_def bucket_index_def hash_def Let_def)
  with r f show ?thesis by simp
qed

text \<open>
  The claim as stated, that no count ever decreases: the entry for "a" has the count
  \<open>INT_MAX\<close>, and \<open>count++\<close> in \<open>insert_word\<close> leaves it at \<open>INT_MIN\<close>.
\<close>

theorem insert_word_count_decreases_counterexample:
  "insert_word [] (Some \<lparr>ht_size = 1, table = [[\<lparr>word = ''a'', count = 2147483647\<rparr>]]\<rparr>) (Some ''a'')
     = (Some \<lparr>ht_size = 1, table = [[\<lparr>word = ''a'', count = 2147483648\<rparr>]]\<rparr>, [])
   \<and> sint (2147483647 :: 32 word) = 2147483647
   \<and> sint (2147483648 :: 32 word) = - 2147483648"
  by (simp add: insert_word_def bucket_index_def Let_def)

lemma concat_replicate_Nil_update:
  "k < n \<Longrightarrow> concat ((replicate n [])[k := ys]) = ys"
proof (induction n arbitrary: k)
  case 0
  then show ?case by simp
next
  case (Suc n)
  then show ?case by (cases k) simp_all
qed

lemma map_filter_none:
  "\<forall>e \<in> set (concat xs). \<not> P e \<Longrightarrow> map (filter P) xs = replicate (length xs) []"
  by (induction xs) simp_all

lemma filter_concat_update:
  assumes "\<forall>e \<in> set (concat xs). \<not> P e" and "k < length xs"
  shows "filter P (concat (xs[k := ys])) = filter P ys"
proof -
  have "filter P (concat (xs[k := ys])) = concat ((map (filter P) xs)[k := filter P ys])"
    by (simp add: filter_concat map_update)
  also have "\<dots> = concat ((replicate (length xs) [])[k := filter P ys])"
    using assms(1) by (simp add: map_filter_none)
  also have "\<dots> = filter P ys" using assms(2) by (rule concat_replicate_Nil_update)
  finally show ?thesis .
qed

lemma insert_word_twice:
  assumes inv: "ht_inv ht" and nf: "never_fails al"
    and new: "cstr w \<notin> word ` set (entries ht)"
  shows "\<exists>ht2 al2. insert_words (Some ht, al) [w, w] = (Some ht2, al2) \<and> never_fails al2
     \<and> filter (\<lambda>e. word e = cstr w) (entries ht2) = [\<lparr>word = cstr w, count = 2\<rparr>]"
proof -
  let ?k = "bucket_index ht w"
  let ?b = "table ht ! ?k"
  let ?P = "\<lambda>e. word e = cstr w"
  from inv have k: "?k < length (table ht)" by (simp add: ht_inv_def bucket_index_less)
  then have "?b \<in> set (table ht)" by (rule nth_mem)
  then have sub: "set ?b \<subseteq> set (entries ht)" by (auto simp: entries_def)
  from inv k have norm: "\<forall>e \<in> set ?b. cstr (word e) = word e"
    by (simp add: ht_inv_def placed_def)
  from new have noP: "\<forall>e \<in> set (entries ht). word e \<noteq> cstr w"
    by (metis imageI)
  with sub have nb: "\<forall>e \<in> set ?b. word e \<noteq> cstr w" by blast
  with norm have none: "increment_in_chain ?b w = None" by (simp add: increment_None_iff)
  from alloc_never_fails[OF nf] obtain a1 where a1: "alloc al = (True, a1)" "never_fails a1"
    by blast
  from alloc_never_fails[OF a1(2)] obtain a2 where a2: "alloc a1 = (True, a2)" "never_fails a2"
    by blast
  let ?n1 = "\<lparr>word = cstr w, count = 1\<rparr>"
  let ?h1 = "ht\<lparr>table := (table ht)[?k := ?n1 # ?b]\<rparr>"
  have 1: "insert_word al (Some ht) (Some w) = (Some ?h1, a2)"
    using insert_word_new[OF none a1(1) a2(1)] .
  have b1: "table ?h1 ! bucket_index ?h1 w = ?n1 # ?b" using k by simp
  have found: "increment_in_chain (table ?h1 ! bucket_index ?h1 w) w
       = Some (?n1\<lparr>count := count ?n1 + 1\<rparr> # ?b)"
    by (simp only: b1) (simp add: strcmp_eq_0_iff cstr_idem)
  let ?h2 = "?h1\<lparr>table := (table ?h1)[bucket_index ?h1 w := ?n1\<lparr>count := count ?n1 + 1\<rparr> # ?b]\<rparr>"
  have 2: "insert_word a2 (Some ?h1) (Some w) = (Some ?h2, a2)"
    using insert_word_found[OF found] .
  have t2: "table ?h2 = (table ht)[?k := \<lparr>word = cstr w, count = 2\<rparr> # ?b]" by simp
  have "filter ?P (entries ?h2) = filter ?P (\<lparr>word = cstr w, count = 2\<rparr> # ?b)"
    unfolding entries_def t2
    using noP k by (intro filter_concat_update) (simp_all add: entries_def)
  also have "\<dots> = [\<lparr>word = cstr w, count = 2\<rparr>]"
    using nb by (simp add: filter_empty_conv)
  finally have "filter ?P (entries ?h2) = [\<lparr>word = cstr w, count = 2\<rparr>]" .
  moreover have "insert_words (Some ht, al) [w, w] = (Some ?h2, a2)"
    by (simp add: 1 2 del: bucket_index_table_update)
  ultimately show ?thesis using a2(2) by blast
qed

section \<open>One entry per word\<close>

text \<open>
  C3, as the code has it. Take the table \<open>create_hash_table\<close> returned and any sequence
  of insertions into it, whatever the allocator did. The table holds at most one entry
  per word. If moreover it holds no entry for \<open>w\<close> and no allocation fails from here on,
  then inserting \<open>w\<close> twice leaves exactly one entry for \<open>w\<close>, with count 2.
\<close>

theorem one_entry_per_word:
  assumes "create_hash_table al0 n = (Some ht0, al1)"
    and "insert_words (Some ht0, al1) ws = (htp, al2)"
  shows "\<exists>ht. htp = Some ht \<and> distinct (map word (entries ht))
     \<and> (never_fails al2 \<and> cstr w \<notin> word ` set (entries ht) \<longrightarrow>
           (\<exists>ht2 al3. insert_words (Some ht, al2) [w, w] = (Some ht2, al3)
              \<and> filter (\<lambda>e. word e = cstr w) (entries ht2) = [\<lparr>word = cstr w, count = 2\<rparr>]))"
proof -
  from create_hash_table_Some[OF assms(1)] have "ht_inv ht0"
    by (simp add: ht_inv_empty_table)
  from insert_words_present[OF this assms(2)] obtain ht where
    ht: "htp = Some ht" "ht_inv ht" by blast
  from ht(2) have "distinct (map word (entries ht))" by (rule distinct_entries)
  moreover have "never_fails al2 \<and> cstr w \<notin> word ` set (entries ht) \<longrightarrow>
           (\<exists>ht2 al3. insert_words (Some ht, al2) [w, w] = (Some ht2, al3)
              \<and> filter (\<lambda>e. word e = cstr w) (entries ht2) = [\<lparr>word = cstr w, count = 2\<rparr>])"
    using insert_word_twice[OF ht(2)] by blast
  ultimately show ?thesis using ht(1) by blast
qed

theorem one_entry_per_word_witness:
  "distinct (map word (entries \<lparr>ht_size = 3, table = [[], [], [\<lparr>word = ''hello'', count = 1\<rparr>]]\<rparr>))
   \<and> (\<exists>ht2 al3. insert_words (Some \<lparr>ht_size = 3, table = [[], [], [\<lparr>word = ''hello'', count = 1\<rparr>]]\<rparr>, [])
          [''cat'', ''cat''] = (Some ht2, al3)
        \<and> filter (\<lambda>e. word e = cstr ''cat'') (entries ht2) = [\<lparr>word = cstr ''cat'', count = 2\<rparr>])"
proof -
  let ?ht = "\<lparr>ht_size = 3, table = [[], [], [\<lparr>word = ''hello'', count = 1\<rparr>]]\<rparr>"
  have c: "create_hash_table [] 3 = (Some (empty_table 3), [])"
    by (simp add: create_hash_table_def empty_table_def)
  have i: "insert_words (Some (empty_table 3), []) [''hello''] = (Some ?ht, [])"
    by (simp add: insert_word_def empty_table_def bucket_index_def hash_def cstr_def Let_def
        replicate_3)
  have nf: "never_fails []" by (simp add: never_fails_def)
  have new: "cstr ''cat'' \<notin> word ` set (entries ?ht)" by (simp add: entries_def cstr_def)
  from one_entry_per_word[OF c i, of "''cat''"] nf new show ?thesis by simp
qed

text \<open>
  The claim as stated, for every run: when the first \<open>malloc\<close> of \<open>insert_word\<close> fails
  the insertion is dropped, and after inserting "cat" twice its entry has count 1.
\<close>

theorem insert_twice_counterexample:
  "create_hash_table [True, True, False] 3 = (Some (empty_table 3), [False])
   \<and> insert_words (Some (empty_table 3), [False]) [''cat'', ''cat'']
       = (Some \<lparr>ht_size = 3, table = [[], [], [\<lparr>word = ''cat'', count = 1\<rparr>]]\<rparr>, [])"
  by (simp add: create_hash_table_def insert_word_def empty_table_def bucket_index_def hash_def
      cstr_def Let_def replicate_3)

lemma sum_list_int_map: "sum_list (map (\<lambda>x. int (f x)) xs) = int (sum_list (map f xs))"
  by (induction xs) simp_all

section \<open>The table as a mapping\<close>

lemma map_of_concat_bucket:
  assumes "k < length t" and "\<forall>i < length t. i \<noteq> k \<longrightarrow> x \<notin> fst ` set (t ! i)"
  shows "map_of (concat t) x = map_of (t ! k) x"
  using assms
proof (induction t arbitrary: k)
  case Nil
  then show ?case by simp
next
  case (Cons a t)
  show ?case
  proof (cases k)
    case 0
    have "\<forall>ys \<in> set t. x \<notin> fst ` set ys"
    proof
      fix ys assume "ys \<in> set t"
      then obtain j where j: "j < length t" "t ! j = ys" by (metis in_set_conv_nth)
      with Cons.prems(2)[rule_format, of "Suc j"] 0 show "x \<notin> fst ` set ys" by simp
    qed
    then have "x \<notin> fst ` set (concat t)" by auto
    then have "map_of (concat t) x = None" by (simp add: map_of_eq_None_iff)
    with 0 show ?thesis by (simp add: map_add_def split: option.split)
  next
    case (Suc j)
    with Cons.prems(1) have j: "j < length t" by simp
    have r: "\<forall>i < length t. i \<noteq> j \<longrightarrow> x \<notin> fst ` set (t ! i)"
    proof (intro allI impI)
      fix i assume "i < length t" "i \<noteq> j"
      with Cons.prems(2)[rule_format, of "Suc i"] Suc show "x \<notin> fst ` set (t ! i)" by simp
    qed
    from Cons.prems(2)[rule_format, of 0] Suc have "x \<notin> fst ` set a" by simp
    then have "map_of a x = None" by (simp add: map_of_eq_None_iff)
    with Cons.IH[OF j r] Suc show ?thesis by (simp add: map_add_def split: option.split)
  qed
qed

lemma word_count_of_bucket:
  assumes "ht_inv ht"
  shows "word_count_of ht x
     = map_of (map (\<lambda>e. (word e, count e)) (table ht ! bucket_index ht x)) x"
proof -
  let ?kv = "\<lambda>e. (word e, count e)"
  let ?t = "map (map ?kv) (table ht)"
  let ?k = "bucket_index ht x"
  from assms have k: "?k < length ?t" by (simp add: ht_inv_def bucket_index_less)
  have other: "\<forall>i < length ?t. i \<noteq> ?k \<longrightarrow> x \<notin> fst ` set (?t ! i)"
  proof (intro allI impI notI)
    fix i assume i: "i < length ?t" and ne: "i \<noteq> ?k" and "x \<in> fst ` set (?t ! i)"
    then obtain e where e: "e \<in> set (table ht ! i)" "word e = x" by auto
    from assms have "placed ht" by (simp add: ht_inv_def)
    with e(1) i have "bucket_index ht (word e) = i" unfolding placed_def by simp
    with e(2) ne show False by simp
  qed
  have "word_count_of ht x = map_of (concat ?t) x"
    by (simp add: word_count_of_def entries_def map_concat)
  also have "\<dots> = map_of (?t ! ?k) x" using k other by (rule map_of_concat_bucket)
  finally show ?thesis using k by simp
qed

lemma increment_None_map:
  assumes "\<forall>e \<in> set b. cstr (word e) = word e" and "increment_in_chain b w = None"
  shows "map_of (map (\<lambda>e. (word e, count e)) b) (cstr w) = None"
proof -
  from assms(2) have "\<forall>e \<in> set b. cstr (word e) \<noteq> cstr w" by (simp add: increment_None_iff)
  with assms(1) have "\<forall>e \<in> set b. word e \<noteq> cstr w" by auto
  then have "cstr w \<notin> word ` set b" by (metis imageE)
  then show ?thesis by (simp add: map_of_eq_None_iff image_image)
qed

lemma increment_Some_map:
  assumes "\<forall>e \<in> set b. cstr (word e) = word e" and "increment_in_chain b w = Some ch"
  shows "\<exists>c. map_of (map (\<lambda>e. (word e, count e)) b) (cstr w) = Some c
     \<and> map_of (map (\<lambda>e. (word e, count e)) ch)
         = (map_of (map (\<lambda>e. (word e, count e)) b))(cstr w \<mapsto> c + 1)"
  using assms
proof (induction b arbitrary: ch)
  case Nil
  then show ?case by simp
next
  case (Cons a b)
  from Cons.prems(1) have na: "cstr (word a) = word a" by simp
  show ?case
  proof (cases "strcmp (word a) w = 0")
    case True
    then have wa: "word a = cstr w" using na by (simp add: strcmp_eq_0_iff)
    from True Cons.prems(2) have "ch = a\<lparr>count := count a + 1\<rparr> # b" by simp
    with wa show ?thesis by (auto simp: fun_eq_iff)
  next
    case False
    then have wa: "word a \<noteq> cstr w" using na by (simp add: strcmp_eq_0_iff)
    from False Cons.prems(2) obtain r where r: "increment_in_chain b w = Some r" "ch = a # r"
      by auto
    from Cons.prems(1) have "\<forall>e \<in> set b. cstr (word e) = word e" by simp
    from Cons.IH[OF this r(1)] obtain c where
      c: "map_of (map (\<lambda>e. (word e, count e)) b) (cstr w) = Some c"
        "map_of (map (\<lambda>e. (word e, count e)) r)
           = (map_of (map (\<lambda>e. (word e, count e)) b))(cstr w \<mapsto> c + 1)"
      by blast
    from c wa r(2) show ?thesis by (auto simp: fun_eq_iff)
  qed
qed

lemma word_count_of_update:
  assumes inv: "ht_inv ht" and inv': "ht_inv (ht\<lparr>table := (table ht)[k := ch]\<rparr>)"
    and k: "k < length (table ht)"
  shows "word_count_of (ht\<lparr>table := (table ht)[k := ch]\<rparr>) x
     = (if bucket_index ht x = k then map_of (map (\<lambda>e. (word e, count e)) ch) x
        else word_count_of ht x)"
  using k by (simp add: word_count_of_bucket[OF inv] word_count_of_bucket[OF inv'])


lemma word_count_of_update_upd:
  assumes inv: "ht_inv ht"
    and inv': "ht_inv (ht\<lparr>table := (table ht)[bucket_index ht w := ch]\<rparr>)"
    and ch: "map_of (map (\<lambda>e. (word e, count e)) ch)
       = (map_of (map (\<lambda>e. (word e, count e)) (table ht ! bucket_index ht w)))(cstr w \<mapsto> v)"
  shows "word_count_of (ht\<lparr>table := (table ht)[bucket_index ht w := ch]\<rparr>)
     = (word_count_of ht)(cstr w \<mapsto> v)"
proof
  fix x
  let ?k = "bucket_index ht w"
  from inv have k: "?k < length (table ht)" by (simp add: ht_inv_def bucket_index_less)
  show "word_count_of (ht\<lparr>table := (table ht)[?k := ch]\<rparr>) x
      = ((word_count_of ht)(cstr w \<mapsto> v)) x"
  proof (cases "bucket_index ht x = ?k")
    case True
    then have "word_count_of ht x
        = map_of (map (\<lambda>e. (word e, count e)) (table ht ! ?k)) x"
      by (simp add: word_count_of_bucket[OF inv])
    with True ch show ?thesis by (simp add: word_count_of_update[OF inv inv' k])
  next
    case False
    then have "x \<noteq> cstr w" using bucket_index_cstr[of ht w] by auto
    with False show ?thesis by (simp add: word_count_of_update[OF inv inv' k])
  qed
qed

lemma insert_word_map:
  assumes inv: "ht_inv ht"
  shows "\<exists>ht' al'. insert_word al (Some ht) (Some w) = (Some ht', al') \<and> ht_inv ht'
     \<and> ht_size ht' = ht_size ht
     \<and> (word_count_of ht', al') = map_insert al (word_count_of ht) (cstr w)"
proof -
  let ?k = "bucket_index ht w"
  let ?b = "table ht ! ?k"
  let ?kv = "\<lambda>e. (word e, count e)"
  from inv have k: "?k < length (table ht)" by (simp add: ht_inv_def bucket_index_less)
  from inv have "placed ht" by (simp add: ht_inv_def)
  with k have norm: "\<forall>e \<in> set ?b. cstr (word e) = word e" unfolding placed_def by simp
  have look: "word_count_of ht (cstr w) = map_of (map ?kv ?b) (cstr w)"
    by (simp add: word_count_of_bucket[OF inv] bucket_index_cstr)
  from insert_word_inv[OF inv, of al w] obtain h1 a1 where
    h1: "insert_word al (Some ht) (Some w) = (Some h1, a1)" "ht_inv h1" "ht_size h1 = ht_size ht"
    by blast
  show ?thesis
  proof (cases "increment_in_chain ?b w")
    case (Some ch)
    from insert_word_found[OF Some, of al] h1
    have r: "h1 = ht\<lparr>table := (table ht)[?k := ch]\<rparr>" "a1 = al" by simp_all
    from increment_Some_map[OF norm Some] obtain c where
      c: "map_of (map ?kv ?b) (cstr w) = Some c"
         "map_of (map ?kv ch) = (map_of (map ?kv ?b))(cstr w \<mapsto> c + 1)" by blast
    from h1(2) r(1) have inv': "ht_inv (ht\<lparr>table := (table ht)[?k := ch]\<rparr>)" by simp
    from word_count_of_update_upd[OF inv inv' c(2)] r(1)
    have "word_count_of h1 = (word_count_of ht)(cstr w \<mapsto> c + 1)" by simp
    moreover from look c(1) have "map_insert al (word_count_of ht) (cstr w)
        = ((word_count_of ht)(cstr w \<mapsto> c + 1), al)" by (simp add: map_insert_def)
    ultimately show ?thesis using h1 r(2) by simp
  next
    case None
    from increment_None_map[OF norm None] look
    have m: "word_count_of ht (cstr w) = None" by simp
    obtain b1 al1 where a1: "alloc al = (b1, al1)" by (cases "alloc al")
    obtain b2 al2 where a2: "alloc al1 = (b2, al2)" by (cases "alloc al1")
    show ?thesis
    proof (cases b1)
      case False
      with a1 insert_word_fail1[OF None, of al al1] h1 have "h1 = ht" "a1 = al1" by simp_all
      moreover from m a1 False have "map_insert al (word_count_of ht) (cstr w)
          = (word_count_of ht, al1)" by (simp add: map_insert_def)
      ultimately show ?thesis using h1 by simp
    next
      case True
      note t1 = this
      show ?thesis
      proof (cases b2)
        case False
        with a1 a2 t1 insert_word_fail2[OF None, of al al1 al2] h1
        have "h1 = ht" "a1 = al2" by simp_all
        moreover from m a1 a2 t1 False have "map_insert al (word_count_of ht) (cstr w)
            = (word_count_of ht, al2)" by (simp add: map_insert_def)
        ultimately show ?thesis using h1 by simp
      next
        case True
        let ?ch = "\<lparr>word = cstr w, count = 1\<rparr> # ?b"
        from a1 a2 t1 True insert_word_new[OF None, of al al1 al2] h1
        have r: "h1 = ht\<lparr>table := (table ht)[?k := ?ch]\<rparr>" "a1 = al2" by simp_all
        from h1(2) r(1) have inv': "ht_inv (ht\<lparr>table := (table ht)[?k := ?ch]\<rparr>)" by simp
        have "map_of (map ?kv ?ch) = (map_of (map ?kv ?b))(cstr w \<mapsto> 1)" by simp
        from word_count_of_update_upd[OF inv inv' this] r(1)
        have "word_count_of h1 = (word_count_of ht)(cstr w \<mapsto> 1)" by simp
        moreover from m a1 a2 t1 True have "map_insert al (word_count_of ht) (cstr w)
            = ((word_count_of ht)(cstr w \<mapsto> 1), al2)" by (simp add: map_insert_def)
        ultimately show ?thesis using h1 r(2) by simp
      qed
    qed
  qed
qed

lemma word_count_of_empty: "word_count_of (empty_table n) = Map.empty"
  by (simp add: word_count_of_def entries_def empty_table_def)

lemma map_insert_never_fails:
  assumes "never_fails al"
  shows "\<exists>al'. map_insert al m w
       = (m(w \<mapsto> (case m w of None \<Rightarrow> 1 | Some c \<Rightarrow> c + 1)), al') \<and> never_fails al'"
proof (cases "m w")
  case (Some c)
  with assms show ?thesis by (simp add: map_insert_def)
next
  case None
  from alloc_never_fails[OF assms] obtain al1 where a1: "alloc al = (True, al1)" "never_fails al1"
    by blast
  from alloc_never_fails[OF a1(2)] obtain al2 where a2: "alloc al1 = (True, al2)" "never_fails al2"
    by blast
  from None a1 a2 show ?thesis by (simp add: map_insert_def)
qed

lemma add_occurrences_step:
  "add_occurrences ((m(w \<mapsto> (case m w of None \<Rightarrow> 1 | Some c \<Rightarrow> c + 1))) x) (count_list ws x)
     = add_occurrences (m x) (count_list (w # ws) x)"
  by (cases "m w") (auto simp: add_occurrences_def split: option.splits)

lemma insert_words_counts:
  assumes "ht_inv ht" and "never_fails al"
  shows "\<exists>ht' al'. insert_words (Some ht, al) ws = (Some ht', al') \<and> ht_inv ht'
     \<and> never_fails al'
     \<and> (\<forall>x. word_count_of ht' x
            = add_occurrences (word_count_of ht x) (count_list (map cstr ws) x))"
  using assms
proof (induction ws arbitrary: ht al)
  case Nil
  then show ?case by (simp add: add_occurrences_def split: option.split)
next
  case (Cons w ws)
  from insert_word_map[OF Cons.prems(1), of al w] obtain h1 a1 where
    1: "insert_word al (Some ht) (Some w) = (Some h1, a1)" "ht_inv h1"
       "(word_count_of h1, a1) = map_insert al (word_count_of ht) (cstr w)" by blast
  from map_insert_never_fails[OF Cons.prems(2), of "word_count_of ht" "cstr w"] 1(3)
  have m1: "word_count_of h1 = (word_count_of ht)(cstr w \<mapsto>
        (case word_count_of ht (cstr w) of None \<Rightarrow> 1 | Some c \<Rightarrow> c + 1))"
    and nf1: "never_fails a1" by auto
  from Cons.IH[OF 1(2) nf1] obtain h2 a2 where
    2: "insert_words (Some h1, a1) ws = (Some h2, a2)" "ht_inv h2" "never_fails a2"
       "\<forall>x. word_count_of h2 x
            = add_occurrences (word_count_of h1 x) (count_list (map cstr ws) x)" by blast
  have "\<forall>x. word_count_of h2 x
            = add_occurrences (word_count_of ht x) (count_list (map cstr (w # ws)) x)"
  proof
    fix x
    from 2(4) have "word_count_of h2 x
        = add_occurrences (word_count_of h1 x) (count_list (map cstr ws) x)" by simp
    also have "\<dots> = add_occurrences (word_count_of ht x) (count_list (cstr w # map cstr ws) x)"
      unfolding m1 by (rule add_occurrences_step)
    finally show "word_count_of h2 x
        = add_occurrences (word_count_of ht x) (count_list (map cstr (w # ws)) x)" by simp
  qed
  with 1(1) 2(1,2,3) show ?case by simp
qed

lemma word_count_of_entry:
  assumes "ht_inv ht" and "e \<in> set (entries ht)"
  shows "word_count_of ht (word e) = Some (count e)"
proof -
  from assms(1) have "distinct (map word (entries ht))" by (rule distinct_entries)
  then have "distinct (map fst (map (\<lambda>e. (word e, count e)) (entries ht)))"
    by (simp add: o_def)
  moreover from assms(2) have "(word e, count e) \<in> set (map (\<lambda>e. (word e, count e)) (entries ht))"
    by auto
  ultimately show ?thesis unfolding word_count_of_def by (rule map_of_is_SomeI)
qed

lemma dom_word_count_of: "dom (word_count_of ht) = word ` set (entries ht)"
  by (simp add: word_count_of_def dom_map_of_conv_image_fst image_image)

section \<open>The sum of the counts\<close>

text \<open>
  C10, as the code has it. On the table \<open>create_hash_table\<close> returned, with an allocator
  that never fails, any sequence of insertions (table and words not NULL) in which no
  word is inserted \<open>2^31\<close> times or more leaves a table whose counts, read as \<open>int\<close>, add
  up to the number of insertions. The number of insertions itself is not bounded.
\<close>

theorem sum_of_counts:
  assumes "create_hash_table al0 n = (Some ht0, al1)" and "never_fails al1"
    and "\<forall>w. count_list (map cstr ws) w < 2147483648"
  shows "\<exists>ht al2. insert_words (Some ht0, al1) ws = (Some ht, al2)
     \<and> sum_list (map (\<lambda>e. sint (count e)) (entries ht)) = int (length ws)"
proof -
  let ?ws = "map cstr ws"
  from create_hash_table_Some[OF assms(1)] have ht0: "ht0 = empty_table n" "ht_inv ht0"
    by (simp_all add: ht_inv_empty_table)
  from insert_words_counts[OF ht0(2) assms(2), of ws] obtain ht al2 where
    r: "insert_words (Some ht0, al1) ws = (Some ht, al2)" "ht_inv ht"
    and m: "\<forall>x. word_count_of ht x
            = add_occurrences (word_count_of ht0 x) (count_list ?ws x)" by blast
  have m': "\<And>x. word_count_of ht x
      = (if count_list ?ws x = 0 then None else Some (of_nat (count_list ?ws x)))"
    using m by (simp add: ht0(1) word_count_of_empty add_occurrences_def)
  have each: "\<forall>e \<in> set (entries ht). sint (count e) = int (count_list ?ws (word e))"
  proof
    fix e assume e: "e \<in> set (entries ht)"
    from word_count_of_entry[OF r(2) e] m'[of "word e"]
    have "count e = of_nat (count_list ?ws (word e))" by (simp split: if_splits)
    moreover have "sint (of_nat (count_list ?ws (word e)) :: 32 word)
        = int (count_list ?ws (word e))"
      using assms(3) by (intro sint_of_nat_small) simp
    ultimately show "sint (count e) = int (count_list ?ws (word e))" by simp
  qed
  have "word ` set (entries ht) = dom (word_count_of ht)" by (simp add: dom_word_count_of)
  also have "\<dots> = {x. count_list ?ws x \<noteq> 0}" by (auto simp: m' dom_def)
  also have "\<dots> = set ?ws" by (auto simp: count_list_0_iff)
  finally have words: "set (map word (entries ht)) = set ?ws" by simp
  have "sum_list (map (\<lambda>e. sint (count e)) (entries ht))
      = sum_list (map (\<lambda>e. int (count_list ?ws (word e))) (entries ht))"
    using each by (intro arg_cong[where f = sum_list] map_cong[OF refl]) simp
  also have "\<dots> = sum_list (map (\<lambda>x. int (count_list ?ws x)) (map word (entries ht)))"
    by (simp add: o_def)
  also have "\<dots> = (\<Sum>x \<in> set (map word (entries ht)). int (count_list ?ws x))"
    using distinct_entries[OF r(2)] by (rule sum_list_distinct_conv_sum_set)
  also have "\<dots> = int (\<Sum>x \<in> set ?ws. count_list ?ws x)" by (simp only: words of_nat_sum)
  also have "(\<Sum>x \<in> set ?ws. count_list ?ws x) = length ?ws"
    by (rule sum_count_set) simp_all
  finally show ?thesis using r(1) by simp
qed

theorem sum_of_counts_witness:
  "\<exists>ht al2. insert_words (Some (empty_table 3), []) [''cat'', ''hello'', ''cat''] = (Some ht, al2)
     \<and> sum_list (map (\<lambda>e. sint (count e)) (entries ht)) = int (length [''cat'', ''hello'', ''cat''])"
proof (rule sum_of_counts)
  show "create_hash_table [] 3 = (Some (empty_table 3), [])"
    by (simp add: create_hash_table_def empty_table_def)
  show "never_fails []" by (simp add: never_fails_def)
  show "\<forall>w. count_list (map cstr [''cat'', ''hello'', ''cat'']) w < 2147483648"
  proof
    fix w
    have "count_list (map cstr [''cat'', ''hello'', ''cat'']) w
        \<le> length (map cstr [''cat'', ''hello'', ''cat''])" by (rule count_le_length)
    then show "count_list (map cstr [''cat'', ''hello'', ''cat'']) w < 2147483648" by simp
  qed
qed

lemma insert_words_same:
  "insert_words (Some \<lparr>ht_size = 1, table = [[\<lparr>word = ''a'', count = c\<rparr>]]\<rparr>, []) (replicate k ''a'')
     = (Some \<lparr>ht_size = 1, table = [[\<lparr>word = ''a'', count = c + of_nat k\<rparr>]]\<rparr>, [])"
proof (induction k arbitrary: c)
  case 0
  then show ?case by simp
next
  case (Suc k)
  have "insert_word [] (Some \<lparr>ht_size = 1, table = [[\<lparr>word = ''a'', count = c\<rparr>]]\<rparr>) (Some ''a'')
      = (Some \<lparr>ht_size = 1, table = [[\<lparr>word = ''a'', count = c + 1\<rparr>]]\<rparr>, [])"
    by (simp add: insert_word_def bucket_index_def Let_def)
  with Suc[of "c + 1"] show ?case by (simp add: add.assoc)
qed

text \<open>
  The claim as stated, for every sequence of calls: after \<open>2^31\<close> insertions of "a" the
  only count is \<open>INT_MIN\<close>, and the sum is \<open>- 2^31\<close>, not \<open>2^31\<close>.
\<close>

theorem sum_of_counts_counterexample:
  "create_hash_table [] 1 = (Some (empty_table 1), [])
   \<and> insert_words (Some (empty_table 1), []) (replicate 2147483648 ''a'')
       = (Some \<lparr>ht_size = 1, table = [[\<lparr>word = ''a'', count = 2147483648\<rparr>]]\<rparr>, [])
   \<and> sum_list (map (\<lambda>e. sint (count e))
         (entries \<lparr>ht_size = 1, table = [[\<lparr>word = ''a'', count = 2147483648\<rparr>]]\<rparr>)) = - 2147483648
   \<and> int (length (replicate 2147483648 ''a'')) = 2147483648"
proof -
  have c: "create_hash_table [] 1 = (Some (empty_table 1), [])"
    by (simp add: create_hash_table_def empty_table_def)
  have first: "insert_word [] (Some (empty_table 1)) (Some ''a'')
      = (Some \<lparr>ht_size = 1, table = [[\<lparr>word = ''a'', count = 1\<rparr>]]\<rparr>, [])"
    by (simp add: insert_word_def bucket_index_def empty_table_def cstr_def Let_def)
  have "replicate 2147483648 ''a'' = ''a'' # replicate 2147483647 ''a''"
    by (simp flip: replicate_Suc)
  then have "insert_words (Some (empty_table 1), []) (replicate 2147483648 ''a'')
      = insert_words (Some \<lparr>ht_size = 1, table = [[\<lparr>word = ''a'', count = 1\<rparr>]]\<rparr>, [])
          (replicate 2147483647 ''a'')"
    by (simp add: first)
  also have "\<dots> = (Some \<lparr>ht_size = 1, table = [[\<lparr>word = ''a'', count = 1 + of_nat 2147483647\<rparr>]]\<rparr>, [])"
    by (rule insert_words_same)
  finally have i: "insert_words (Some (empty_table 1), []) (replicate 2147483648 ''a'')
       = (Some \<lparr>ht_size = 1, table = [[\<lparr>word = ''a'', count = 2147483648\<rparr>]]\<rparr>, [])"
    by simp
  have s: "sum_list (map (\<lambda>e. sint (count e))
         (entries \<lparr>ht_size = 1, table = [[\<lparr>word = ''a'', count = 2147483648\<rparr>]]\<rparr>)) = - 2147483648"
    by (simp add: entries_def)
  from c i s show ?thesis by simp
qed

section \<open>The reading loop, part by part\<close>

lemma counters_of_step: "counters_of (analyze_step s c) = counter_step (counters_of s) c"
proof -
  obtain stats al buf inw where s: "s = (stats, al, buf, inw)" by (cases s)
  obtain htp al' where i: "insert_word al (word_counts stats) (Some buf) = (htp, al')"
    by (cases "insert_word al (word_counts stats) (Some buf)")
  show ?thesis
    unfolding s
    by (simp add: analyze_step_def counters_of_def counter_step_def count_word_def
        count_byte_def Let_def i)
qed

lemma tokenizer_of_step: "tokenizer_of (analyze_step s c) = token_step (tokenizer_of s) c"
proof -
  obtain stats al buf inw where s: "s = (stats, al, buf, inw)" by (cases s)
  obtain htp al' where i: "insert_word al (word_counts stats) (Some buf) = (htp, al')"
    by (cases "insert_word al (word_counts stats) (Some buf)")
  show ?thesis
    unfolding s
    by (simp add: analyze_step_def tokenizer_of_def token_step_def count_word_def
        count_byte_def Let_def i)
qed

lemma filename_step: "filename (fst (analyze_step s c)) = filename (fst s)"
proof -
  obtain stats al buf inw where s: "s = (stats, al, buf, inw)" by (cases s)
  obtain htp al' where i: "insert_word al (word_counts stats) (Some buf) = (htp, al')"
    by (cases "insert_word al (word_counts stats) (Some buf)")
  show ?thesis
    unfolding s
    by (simp add: analyze_step_def count_word_def count_byte_def Let_def i)
qed

lemma counters_of_loop: "counters_of (analyze_loop s bytes) = foldl counter_step (counters_of s) bytes"
  by (induction bytes arbitrary: s) (simp_all add: counters_of_step)

lemma tokenizer_of_loop: "tokenizer_of (analyze_loop s bytes) = foldl token_step (tokenizer_of s) bytes"
  by (induction bytes arbitrary: s) (simp_all add: tokenizer_of_step)

lemma filename_loop: "filename (fst (analyze_loop s bytes)) = filename (fst s)"
  by (induction bytes arbitrary: s) (simp_all add: filename_step)

lemma analyze_file_parts:
  assumes "fs (filename stats) = Some bytes"
  shows "\<exists>stats' al'. analyze_file fs al stats = (0, stats', al')
     \<and> (char_count stats', word_count stats', line_count stats', char_freq stats')
         = (case foldl counter_step
                  (char_count stats, word_count stats, line_count stats, char_freq stats, False) bytes
            of (cc, wc, lc, fr, in_word) \<Rightarrow> (cc, wc, lc, fr))
     \<and> (word_counts stats', al') = token_end (foldl token_step (word_counts stats, al, []) bytes)
     \<and> filename stats' = filename stats"
proof -
  obtain st a buf inw where l: "analyze_loop (stats, al, [], False) bytes = (st, a, buf, inw)"
    by (cases "analyze_loop (stats, al, [], False) bytes")
  from counters_of_loop[of "(stats, al, [], False)" bytes] l
  have c: "foldl counter_step
      (char_count stats, word_count stats, line_count stats, char_freq stats, False) bytes
      = (char_count st, word_count st, line_count st, char_freq st, inw)"
    by (simp add: counters_of_def)
  from tokenizer_of_loop[of "(stats, al, [], False)" bytes] l
  have t: "foldl token_step (word_counts stats, al, []) bytes = (word_counts st, a, buf)"
    by (simp add: tokenizer_of_def)
  from filename_loop[of "(stats, al, [], False)" bytes] l
  have f: "filename st = filename stats" by simp
  obtain htp a' where i: "insert_word a (word_counts st) (Some buf) = (htp, a')"
    by (cases "insert_word a (word_counts st) (Some buf)")
  show ?thesis
    by (simp add: analyze_file_def assms l c t f token_end_def i)
qed

lemma counter_step_count: "fst (counter_step k c) = fst k + 1"
  by (cases k) (simp add: counter_step_def)

lemma counter_step_freq:
  "fst (snd (snd (snd (counter_step k c)))) = bump_freq (fst (snd (snd (snd k)))) c"
  by (cases k) (simp add: counter_step_def bump_freq_def)

lemma counter_loop_count:
  "fst (foldl counter_step k bytes) = fst k + of_nat (length bytes)"
  by (induction bytes arbitrary: k) (simp_all add: counter_step_count)

lemma counter_loop_freq:
  "fst (snd (snd (snd (foldl counter_step k bytes))))
     = foldl bump_freq (fst (snd (snd (snd k)))) bytes"
  by (induction bytes arbitrary: k) (simp_all add: counter_step_freq)

lemma of_char_lt_256: "(of_char c :: nat) < 256"
  by (rule nat_of_char_less_256)

lemma char_of_eq_iff: "i < 256 \<Longrightarrow> (char_of (i :: nat) = c) = (i = of_char c)"
  by (metis char_of_char of_char_of mod_less)

lemma bump_freq_loop:
  "length fr = 256 \<Longrightarrow>
   foldl bump_freq fr bytes
     = map (\<lambda>i. fr ! i + of_nat (count_list bytes (char_of i))) [0..<256]"
proof (induction bytes arbitrary: fr)
  case Nil
  then show ?case by (simp add: list_eq_iff_nth_eq)
next
  case (Cons c bytes)
  have len: "length (bump_freq fr c) = 256" using Cons.prems by (simp add: bump_freq_def)
  have "foldl bump_freq fr (c # bytes) = foldl bump_freq (bump_freq fr c) bytes" by simp
  also have "\<dots> = map (\<lambda>i. bump_freq fr c ! i + of_nat (count_list bytes (char_of i))) [0..<256]"
    using len by (rule Cons.IH)
  also have "\<dots> = map (\<lambda>i. fr ! i + of_nat (count_list (c # bytes) (char_of i))) [0..<256]"
  proof (rule map_cong[OF refl])
    fix i assume "i \<in> set [0..<256]"
    then have i: "i < 256" by simp
    show "bump_freq fr c ! i + of_nat (count_list bytes (char_of i))
        = fr ! i + of_nat (count_list (c # bytes) (char_of i))"
    proof (cases "i = of_char c")
      case True
      then have "char_of i = c" by simp
      with True Cons.prems of_char_lt_256[of c] show ?thesis by (simp add: bump_freq_def)
    next
      case False
      with i have "char_of i \<noteq> c" by (simp add: char_of_eq_iff)
      with False show ?thesis by (simp add: bump_freq_def)
    qed
  qed
  finally show ?case .
qed

lemma sum_indicator_256:
  "sum_list (map (\<lambda>i. if c = char_of i then g i else (0::'a::comm_monoid_add)) [0..<256]) = g (of_char c)"
proof -
  have "sum_list (map (\<lambda>i. if c = char_of i then g i else 0) [0..<256])
      = (\<Sum>i \<in> {0..<256}. if c = char_of (i::nat) then g i else 0)"
    by (simp add: interv_sum_list_conv_sum_set_nat)
  also have "\<dots> = (\<Sum>i \<in> {0..<256}. if i = of_char c then g i else 0)"
    by (rule sum.cong) (auto simp: char_of_eq_iff)
  also have "\<dots> = g (of_char c)" using of_char_lt_256[of c] by (simp add: sum.delta)
  finally show ?thesis .
qed

lemma sum_count_list_256:
  "sum_list (map (\<lambda>i. count_list bytes (char_of i)) [0..<256]) = length bytes"
proof (induction bytes)
  case Nil
  then show ?case by simp
next
  case (Cons c bytes)
  have "sum_list (map (\<lambda>i. count_list (c # bytes) (char_of i)) [0..<256])
      = sum_list (map (\<lambda>i. count_list bytes (char_of i) + (if c = char_of i then 1 else 0)) [0..<256])"
    by (rule arg_cong[where f = sum_list], rule map_cong[OF refl]) simp
  also have "\<dots> = sum_list (map (\<lambda>i. count_list bytes (char_of i)) [0..<256])
      + sum_list (map (\<lambda>i. if c = char_of i then 1 else 0) [0..<256])"
    by (rule sum_list_addf)
  also have "\<dots> = length bytes + 1"
    using sum_indicator_256[of c "\<lambda>_. 1::nat"] by (simp add: Cons.IH)
  finally show ?case by simp
qed

lemma analyze_file_freq:
  assumes "fs name = Some bytes"
  shows "\<exists>stats' al'. analyze_file fs al (init_stats name htp) = (0, stats', al')
     \<and> char_count stats' = of_nat (length bytes)
     \<and> char_freq stats' = map (\<lambda>i. of_nat (count_list bytes (char_of i))) [0..<256]"
proof -
  let ?s = "init_stats name htp"
  let ?k = "(char_count ?s, word_count ?s, line_count ?s, char_freq ?s, False)"
  have f: "fs (filename ?s) = Some bytes" using assms by (simp add: init_stats_def)
  from analyze_file_parts[of fs ?s bytes al, OF f] obtain stats' al' where
    r: "analyze_file fs al ?s = (0, stats', al')"
    and c: "(char_count stats', word_count stats', line_count stats', char_freq stats')
         = (case foldl counter_step ?k bytes
            of (cc, wc, lc, fr, in_word) \<Rightarrow> (cc, wc, lc, fr))"
    by blast
  obtain cc wc lc fr inw where k: "foldl counter_step ?k bytes = (cc, wc, lc, fr, inw)"
    by (cases "foldl counter_step ?k bytes")
  from counter_loop_count[of ?k bytes] k have "cc = of_nat (length bytes)"
    by (simp add: init_stats_def)
  moreover from counter_loop_freq[of ?k bytes] k
  have "fr = foldl bump_freq (replicate 256 0) bytes" by (simp add: init_stats_def)
  then have "fr = map (\<lambda>i. of_nat (count_list bytes (char_of i))) [0..<256]"
    by (simp add: bump_freq_loop)
  ultimately show ?thesis using r c k by simp
qed

lemma count_list_replicate_eq: "count_list (replicate n a) x = (if a = x then n else 0)"
  by (induction n) (auto split: if_splits)

section \<open>The frequency table and the character count\<close>

text \<open>
  C2, as the code has it. Start from the state \<open>main\<close> builds (counters 0, table
  zeroed) and let the file open. If no byte value occurs \<open>2^31\<close> times or more in the
  input, then \<open>analyze_file\<close> returns 0 and the 256 entries of the frequency table, read
  as \<open>int\<close>, add up to the character count.
\<close>

theorem frequency_sum:
  assumes "fs name = Some bytes" and "\<forall>c. count_list bytes c < 2147483648"
  shows "\<exists>stats' al'. analyze_file fs al (init_stats name htp) = (0, stats', al')
     \<and> sum_list (map sint (char_freq stats')) = sint (char_count stats')"
proof -
  from analyze_file_freq[of fs name bytes al htp, OF assms(1)] obtain stats' al' where
    r: "analyze_file fs al (init_stats name htp) = (0, stats', al')"
    and cc: "char_count stats' = of_nat (length bytes)"
    and fr: "char_freq stats' = map (\<lambda>i. of_nat (count_list bytes (char_of i))) [0..<256]"
    by blast
  have each: "\<And>i. sint (of_nat (count_list bytes (char_of i)) :: 32 word)
      = int (count_list bytes (char_of (i::nat)))"
    using assms(2) by (intro sint_of_nat_small) simp
  have "length bytes = (\<Sum>i \<in> {0..<256}. count_list bytes (char_of (i::nat)))"
    using sum_count_list_256[of bytes] by (simp add: interv_sum_list_conv_sum_set_nat)
  also have "\<dots> \<le> (\<Sum>i \<in> {0..<256::nat}. 2147483648)"
    using assms(2) by (intro sum_mono) (simp add: less_imp_le)
  finally have "length bytes \<le> 256 * 2147483648" by simp
  then have "length bytes < 2 ^ (LENGTH(64) - 1)" by simp
  then have "sint (of_nat (length bytes) :: 64 word) = int (length bytes)"
    by (rule sint_of_nat_small)
  moreover have "sum_list (map sint (char_freq stats'))
      = int (sum_list (map (\<lambda>i. count_list bytes (char_of i)) [0..<256]))"
    by (simp add: fr o_def each sum_list_int_map)
  ultimately show ?thesis using r cc by (simp add: sum_count_list_256)
qed

theorem frequency_sum_witness:
  "\<exists>stats' al'. analyze_file (\<lambda>path. Some ''Cat cat'') [] (init_stats ''in.txt'' (Some (empty_table 4096)))
        = (0, stats', al')
     \<and> sum_list (map sint (char_freq stats')) = sint (char_count stats')"
proof (rule frequency_sum[of "\<lambda>path. Some ''Cat cat''" "''in.txt''" "''Cat cat''"])
  show "(\<lambda>path. Some ''Cat cat'') ''in.txt'' = Some ''Cat cat''" by simp
  show "\<forall>c. count_list ''Cat cat'' c < 2147483648"
  proof
    fix c
    have "count_list ''Cat cat'' c \<le> length ''Cat cat''" by (rule count_le_length)
    then show "count_list ''Cat cat'' c < 2147483648" by simp
  qed
qed

text \<open>
  The claim as stated, for every input: on a file of \<open>2^31\<close> bytes "a" the entry for "a"
  is an \<open>int\<close> that was incremented \<open>2^31\<close> times, \<open>INT_MIN\<close>; the table adds up to
  \<open>- 2^31\<close> while the \<open>long long\<close> character count is \<open>2^31\<close>.
\<close>

theorem frequency_sum_counterexample:
  "sum_list (map sint (char_freq (fst (snd (analyze_file
       (\<lambda>path. Some (replicate 2147483648 (CHR ''a''))) []
       (init_stats ''big.txt'' (Some (empty_table 4096))))))))
     = - 2147483648
   \<and> sint (char_count (fst (snd (analyze_file
       (\<lambda>path. Some (replicate 2147483648 (CHR ''a''))) []
       (init_stats ''big.txt'' (Some (empty_table 4096)))))))
     = 2147483648"
proof -
  let ?bytes = "replicate 2147483648 (CHR ''a'')"
  let ?fs = "\<lambda>path::string. Some ?bytes"
  have f: "?fs ''big.txt'' = Some ?bytes" by simp
  from analyze_file_freq[of ?fs "''big.txt''" ?bytes "[]" "Some (empty_table 4096)", OF f]
  obtain stats' al' where
    r: "analyze_file ?fs [] (init_stats ''big.txt'' (Some (empty_table 4096))) = (0, stats', al')"
    and cc: "char_count stats' = of_nat (length ?bytes)"
    and fr: "char_freq stats' = map (\<lambda>i. of_nat (count_list ?bytes (char_of i))) [0..<256]"
    by blast
  have "char_freq stats'
      = map (\<lambda>i. if CHR ''a'' = char_of i then 2147483648 else 0) [0..<256]"
    unfolding fr by (rule map_cong[OF refl]) (simp add: count_list_replicate_eq)
  then have "sum_list (map sint (char_freq stats'))
      = sum_list (map (\<lambda>i. if CHR ''a'' = char_of i then sint (2147483648 :: 32 word) else 0) [0..<256])"
    by (simp add: o_def if_distrib[of sint] cong: if_cong)
  also have "\<dots> = sint (2147483648 :: 32 word)"
    by (rule sum_indicator_256[of "CHR ''a''" "\<lambda>_. sint (2147483648 :: 32 word)"])
  finally have 1: "sum_list (map sint (char_freq stats')) = - 2147483648" by simp
  have 2: "sint (char_count stats') = 2147483648" by (simp add: cc)
  from r 1 2 show ?thesis by simp
qed

section \<open>The token part of the loop\<close>

lemma token_step_alpha:
  "isalpha c \<Longrightarrow> token_step (h, a, buf) c
     = (h, a, if length buf < 99 then buf @ [tolower c] else buf)"
  by (simp add: token_step_def MAX_WORD_LEN_def)

lemma token_step_delimiter:
  "\<not> isalpha d \<Longrightarrow> token_step (h, a, buf) d
     = (if buf = [] then (h, a, [])
        else (fst (insert_word a h (Some buf)), snd (insert_word a h (Some buf)), []))"
  by (simp add: token_step_def split: prod.split)




lemma token_words:
  "token_end (foldl token_step (h, a, buf) bytes) = insert_words (h, a) (tokens buf bytes)"
proof (induction bytes arbitrary: h a buf)
  case Nil
  then show ?case by (simp add: token_end_def)
next
  case (Cons c bytes)
  show ?case
  proof (cases "isalpha c")
    case True
    then show ?thesis by (simp add: token_step_alpha Cons.IH MAX_WORD_LEN_def)
  next
    case False
    then show ?thesis by (simp add: token_step_delimiter Cons.IH)
  qed
qed

lemma insert_word_again:
  assumes "k < N" and "bucket_index \<lparr>ht_size = n, table = t\<rparr> w = k"
  shows "insert_word a (Some \<lparr>ht_size = n,
            table = (replicate N [])[k := [\<lparr>word = cstr w, count = c\<rparr>]]\<rparr>) (Some w)
     = (Some \<lparr>ht_size = n,
            table = (replicate N [])[k := [\<lparr>word = cstr w, count = c + 1\<rparr>]]\<rparr>, a)"
proof -
  let ?ht = "\<lparr>ht_size = n, table = (replicate N [])[k := [\<lparr>word = cstr w, count = c\<rparr>]]\<rparr>"
  from assms(2) have bi: "bucket_index ?ht w = k" by (simp add: bucket_index_def)
  from assms(1) have b: "table ?ht ! bucket_index ?ht w = [\<lparr>word = cstr w, count = c\<rparr>]"
    by (simp add: bi)
  have "increment_in_chain (table ?ht ! bucket_index ?ht w) w
      = Some [\<lparr>word = cstr w, count = c + 1\<rparr>]"
    by (simp only: b) (simp add: strcmp_eq_0_iff cstr_idem)
  from insert_word_found[OF this, of a] show ?thesis by (simp add: bi)
qed

lemma insert_words_again:
  assumes "k < N" and "bucket_index \<lparr>ht_size = n, table = t\<rparr> w = k"
  shows "insert_words (Some \<lparr>ht_size = n,
            table = (replicate N [])[k := [\<lparr>word = cstr w, count = c\<rparr>]]\<rparr>, a) (replicate j w)
     = (Some \<lparr>ht_size = n,
            table = (replicate N [])[k := [\<lparr>word = cstr w, count = c + of_nat j\<rparr>]]\<rparr>, a)"
proof (induction j arbitrary: c)
  case 0
  then show ?case by simp
next
  case (Suc j)
  from insert_word_again[OF assms, where a = a and c = c] Suc[of "c + 1"] show ?case
    by (simp add: add.assoc)
qed

lemma insert_words_fresh:
  assumes "1 \<le> sint n" and "alloc al = (True, al1)" and "alloc al1 = (True, al2)"
  shows "insert_words (Some (empty_table n), al) (replicate (Suc j) w)
     = (Some \<lparr>ht_size = n, table = (replicate (unat n) [])
           [bucket_index (empty_table n) w := [\<lparr>word = cstr w, count = of_nat (Suc j)\<rparr>]]\<rparr>, al2)"
proof -
  let ?k = "bucket_index (empty_table n) w"
  from assms(1) have "ht_ok (empty_table n)" by (simp add: ht_ok_def empty_table_def)
  then have k: "?k < unat n" using bucket_index_less[of "empty_table n" w]
    by (simp add: empty_table_def)
  then have "table (empty_table n) ! ?k = []" by (simp add: empty_table_def)
  then have "increment_in_chain (table (empty_table n) ! ?k) w = None" by simp
  from insert_word_new[OF this assms(2,3)] k
  have first: "insert_word al (Some (empty_table n)) (Some w)
      = (Some \<lparr>ht_size = n, table = (replicate (unat n) [])
           [?k := [\<lparr>word = cstr w, count = 1\<rparr>]]\<rparr>, al2)"
    by (simp add: empty_table_def)
  have bi: "bucket_index \<lparr>ht_size = n, table = replicate (unat n) []\<rparr> w = ?k"
    by (simp add: empty_table_def)
  from insert_words_again[OF k bi, where a = al2 and c = 1 and j = j] first show ?thesis
    by (simp add: add.commute)
qed





lemma map_insert_effect:
  "fst (map_insert al m w)
     = (if m w \<noteq> None \<or> (fst (alloc al) \<and> fst (alloc (snd (alloc al))))
        then m(w \<mapsto> (case m w of None \<Rightarrow> 1 | Some c \<Rightarrow> c + 1)) else m)"
proof (cases "m w")
  case (Some c)
  then show ?thesis by (simp add: map_insert_def)
next
  case None
  obtain x a1 where a1: "alloc al = (x, a1)" by (cases "alloc al")
  obtain y a2 where a2: "alloc a1 = (y, a2)" by (cases "alloc a1")
  from None a1 a2 show ?thesis by (cases x; cases y) (simp_all add: map_insert_def)
qed




section \<open>The scenario of the three cats\<close>

lemma cat_counters:
  "(case foldl counter_step (0, 0, 0, replicate 256 0, False) (''Cat cat CAT.'' @ [CHR 0x0A])
    of (cc, wc, lc, fr, in_word) \<Rightarrow> (cc, wc, lc)) = (13, 3, 1)"
  by code_simp

lemma cat_tokens: "tokens [] (''Cat cat CAT.'' @ [CHR 0x0A]) = [''cat'', ''cat'', ''cat'']"
  by code_simp

lemma map_insert_thrice:
  assumes "(m1, a1) = map_insert al Map.empty w" and "(m2, a2) = map_insert a1 m1 w"
    and "(m3, a3) = map_insert a2 m2 w"
  shows "(m3 = [w \<mapsto> 3]) = (fst (alloc al) \<and> fst (alloc (snd (alloc al))))"
proof -
  from arg_cong[OF assms(1), of fst] have m1: "m1 = fst (map_insert al Map.empty w)" by simp
  from arg_cong[OF assms(2), of fst] have m2: "m2 = fst (map_insert a1 m1 w)" by simp
  from arg_cong[OF assms(3), of fst] have m3: "m3 = fst (map_insert a2 m2 w)" by simp
  show ?thesis
  proof (cases "fst (alloc al) \<and> fst (alloc (snd (alloc al)))")
    case True
    with m1 have 1: "m1 = [w \<mapsto> 1]" by (simp add: map_insert_effect)
    with m2 have 2: "m2 = [w \<mapsto> 2]" by (simp add: map_insert_effect)
    with m3 have "m3 = [w \<mapsto> 3]" by (simp add: map_insert_effect)
    with True show ?thesis by simp
  next
    case False
    with m1 have 1: "m1 = Map.empty" by (simp add: map_insert_effect)
    with m2 have 2: "m2 w = None \<or> m2 w = Some 1" by (simp add: map_insert_effect)
    with m3 have "m3 w = None \<or> m3 w = Some 1 \<or> m3 w = Some 2"
      by (auto simp: map_insert_effect)
    then have "m3 \<noteq> [w \<mapsto> 3]" by auto
    with False show ?thesis by simp
  qed
qed

text \<open>
  C1, as the code has it. Start from the table \<open>create_hash_table\<close> returned and the
  state \<open>main\<close> builds (counters 0, frequency table zeroed), on a file that holds the
  13 bytes "Cat cat CAT." and a line feed. Whatever the allocator does, \<open>analyze_file\<close>
  returns 0 with \<open>char_count\<close> 13, \<open>word_count\<close> 3 and \<open>line_count\<close> 1, and leaves a
  store. That store maps "cat" to 3 and no other word if and only if the first two
  allocation requests of the analysis succeed: the \<open>malloc\<close> and the \<open>strdup\<close> of the
  first insertion of "cat". In that case its only entry is "cat" with count 3.
\<close>

theorem cat_scenario:
  assumes "create_hash_table al0 n = (Some ht0, al)"
    and "fs name = Some (''Cat cat CAT.'' @ [CHR 0x0A])"
  shows "\<exists>stats' al' ht. analyze_file fs al (init_stats name (Some ht0)) = (0, stats', al')
     \<and> char_count stats' = 13 \<and> word_count stats' = 3 \<and> line_count stats' = 1
     \<and> word_counts stats' = Some ht
     \<and> (word_count_of ht = [''cat'' \<mapsto> 3])
         = (fst (alloc al) \<and> fst (alloc (snd (alloc al))))
     \<and> (fst (alloc al) \<and> fst (alloc (snd (alloc al))) \<longrightarrow>
           entries ht = [\<lparr>word = ''cat'', count = 3\<rparr>])"
proof -
  let ?bytes = "''Cat cat CAT.'' @ [CHR 0x0A]"
  let ?s = "init_stats name (Some ht0)"
  from create_hash_table_Some[OF assms(1)] have ht0: "ht0 = empty_table n" "1 \<le> sint n"
    by simp_all
  then have inv0: "ht_inv (empty_table n)" by (simp add: ht_inv_empty_table)
  have f: "fs (filename ?s) = Some ?bytes" using assms(2) by (simp add: init_stats_def)
  from analyze_file_parts[of fs ?s ?bytes al, OF f] obtain stats' al' where
    r: "analyze_file fs al ?s = (0, stats', al')"
    and c: "(char_count stats', word_count stats', line_count stats', char_freq stats')
         = (case foldl counter_step
                  (char_count ?s, word_count ?s, line_count ?s, char_freq ?s, False) ?bytes
            of (cc, wc, lc, fr, in_word) \<Rightarrow> (cc, wc, lc, fr))"
    and t: "(word_counts stats', al')
         = token_end (foldl token_step (word_counts ?s, al, []) ?bytes)"
    by blast
  obtain cc wc lc fr inw where k:
    "foldl counter_step (0, 0, 0, replicate 256 0, False) ?bytes = (cc, wc, lc, fr, inw)"
    by (cases "foldl counter_step (0, 0, 0, replicate 256 0, False) ?bytes")
  from cat_counters k have "cc = 13" "wc = 3" "lc = 1" by simp_all
  with c k have counters: "char_count stats' = 13" "word_count stats' = 3" "line_count stats' = 1"
    by (simp_all add: init_stats_def)
  from t have store: "(word_counts stats', al')
      = insert_words (Some (empty_table n), al) [''cat'', ''cat'', ''cat'']"
    by (simp only: token_words cat_tokens) (simp add: init_stats_def ht0(1))
  have cat: "cstr ''cat'' = ''cat''" by (simp add: cstr_def)
  from insert_word_map[OF inv0, of al "''cat''"] obtain k1 b1 where
    1: "insert_word al (Some (empty_table n)) (Some ''cat'') = (Some k1, b1)" "ht_inv k1"
       "(word_count_of k1, b1) = map_insert al Map.empty ''cat''"
    by (auto simp: cat word_count_of_empty)
  from insert_word_map[OF 1(2), of b1 "''cat''"] obtain k2 b2 where
    2: "insert_word b1 (Some k1) (Some ''cat'') = (Some k2, b2)" "ht_inv k2"
       "(word_count_of k2, b2) = map_insert b1 (word_count_of k1) ''cat''"
    by (auto simp: cat)
  from insert_word_map[OF 2(2), of b2 "''cat''"] obtain k3 b3 where
    3: "insert_word b2 (Some k2) (Some ''cat'') = (Some k3, b3)" "ht_inv k3"
       "(word_count_of k3, b3) = map_insert b2 (word_count_of k2) ''cat''"
    by (auto simp: cat)
  from store 1(1) 2(1) 3(1) have w: "word_counts stats' = Some k3" by simp
  from map_insert_thrice[OF 1(3) 2(3) 3(3)]
  have m: "(word_count_of k3 = [''cat'' \<mapsto> 3])
      = (fst (alloc al) \<and> fst (alloc (snd (alloc al))))" .
  have "fst (alloc al) \<and> fst (alloc (snd (alloc al))) \<longrightarrow>
      entries k3 = [\<lparr>word = ''cat'', count = 3\<rparr>]"
  proof
    assume ok: "fst (alloc al) \<and> fst (alloc (snd (alloc al)))"
    obtain al1 where a1: "alloc al = (True, al1)" using ok by (cases "alloc al") auto
    obtain al2 where a2: "alloc al1 = (True, al2)" using ok a1 by (cases "alloc al1") auto
    let ?k = "bucket_index (empty_table n) ''cat''"
    let ?ht = "\<lparr>ht_size = n, table = (replicate (unat n) [])
           [?k := [\<lparr>word = cstr ''cat'', count = of_nat (Suc 2)\<rparr>]]\<rparr>"
    from ht0(2) have "ht_ok (empty_table n)" by (simp add: ht_ok_def empty_table_def)
    then have kn: "?k < unat n" using bucket_index_less[of "empty_table n" "''cat''"]
      by (simp add: empty_table_def)
    have "replicate (Suc 2) ''cat'' = [''cat'', ''cat'', ''cat'']"
      by (simp add: numeral_2_eq_2)
    with insert_words_fresh[OF ht0(2) a1 a2, of 2 "''cat''"] store w
    have "k3 = ?ht" by simp
    with kn show "entries k3 = [\<lparr>word = ''cat'', count = 3\<rparr>]"
      by (simp add: entries_def concat_replicate_Nil_update cstr_def)
  qed
  with r counters w m show ?thesis by blast
qed

theorem cat_scenario_witness:
  "\<exists>stats' al' ht. analyze_file (\<lambda>path. Some (''Cat cat CAT.'' @ [CHR 0x0A])) []
         (init_stats ''cat.txt'' (Some (empty_table 4096))) = (0, stats', al')
     \<and> char_count stats' = 13 \<and> word_count stats' = 3 \<and> line_count stats' = 1
     \<and> word_counts stats' = Some ht
     \<and> word_count_of ht = [''cat'' \<mapsto> 3]
     \<and> entries ht = [\<lparr>word = ''cat'', count = 3\<rparr>]"
proof -
  have c: "create_hash_table [] 4096 = (Some (empty_table 4096), [])"
    by (simp add: create_hash_table_def empty_table_def)
  have f: "(\<lambda>path::string. Some (''Cat cat CAT.'' @ [CHR 0x0A])) ''cat.txt''
      = Some (''Cat cat CAT.'' @ [CHR 0x0A])" by simp
  have a: "fst (alloc []) \<and> fst (alloc (snd (alloc [])))" by simp
  from cat_scenario[of "[]" 4096 "empty_table 4096" "[]"
      "\<lambda>path. Some (''Cat cat CAT.'' @ [CHR 0x0A])" "''cat.txt''", OF c f] a
  show ?thesis by blast
qed

text \<open>
  The claim as stated, for every run: when the first \<open>malloc\<close> of \<open>insert_word\<close> fails,
  the first "cat" is dropped and the store ends with "cat" counted 2.
\<close>

theorem cat_scenario_counterexample:
  "create_hash_table [True, True, False] 3 = (Some (empty_table 3), [False])
   \<and> word_counts (fst (snd (analyze_file (\<lambda>path. Some (''Cat cat CAT.'' @ [CHR 0x0A])) [False]
         (init_stats ''cat.txt'' (Some (empty_table 3))))))
       = Some \<lparr>ht_size = 3, table = [[], [], [\<lparr>word = ''cat'', count = 2\<rparr>]]\<rparr>
   \<and> word_count_of \<lparr>ht_size = 3, table = [[], [], [\<lparr>word = ''cat'', count = 2\<rparr>]]\<rparr>
       = [''cat'' \<mapsto> 2]"
proof -
  have "entries \<lparr>ht_size = 3, table = [[], [], [\<lparr>word = ''cat'', count = 2\<rparr>]]\<rparr>
      = [\<lparr>word = ''cat'', count = 2\<rparr>]" by (simp add: entries_def)
  then have m: "word_count_of \<lparr>ht_size = 3, table = [[], [], [\<lparr>word = ''cat'', count = 2\<rparr>]]\<rparr>
       = [''cat'' \<mapsto> 2]" by (simp add: word_count_of_def)
  have "create_hash_table [True, True, False] 3 = (Some (empty_table 3), [False])
   \<and> word_counts (fst (snd (analyze_file (\<lambda>path. Some (''Cat cat CAT.'' @ [CHR 0x0A])) [False]
         (init_stats ''cat.txt'' (Some (empty_table 3))))))
       = Some \<lparr>ht_size = 3, table = [[], [], [\<lparr>word = ''cat'', count = 2\<rparr>]]\<rparr>"
    by code_simp
  with m show ?thesis by simp
qed

section \<open>The token pending at the end of the file\<close>




section \<open>A run longer than the buffer\<close>




section \<open>Two runs on the same bytes\<close>

lemma increment_None_mapping:
  assumes "ht_inv ht"
  shows "(increment_in_chain (table ht ! bucket_index ht w) w = None)
     = (word_count_of ht (cstr w) = None)"
proof -
  let ?b = "table ht ! bucket_index ht w"
  from assms have k: "bucket_index ht w < length (table ht)"
    by (simp add: ht_inv_def bucket_index_less)
  from assms have "placed ht" by (simp add: ht_inv_def)
  with k have norm: "\<forall>e \<in> set ?b. cstr (word e) = word e" unfolding placed_def by simp
  have look: "word_count_of ht (cstr w) = map_of (map (\<lambda>e. (word e, count e)) ?b) (cstr w)"
    by (simp add: word_count_of_bucket[OF assms] bucket_index_cstr)
  show ?thesis
  proof (cases "increment_in_chain ?b w")
    case None
    with increment_None_map[OF norm None] look show ?thesis by simp
  next
    case (Some ch)
    from increment_Some_map[OF norm Some] look Some show ?thesis by auto
  qed
qed

lemma insert_word_unchanged:
  assumes "ht_inv ht"
  shows "(fst (insert_word al (Some ht) (Some w)) = Some ht)
     = (word_count_of ht (cstr w) = None
        \<and> \<not> (fst (alloc al) \<and> fst (alloc (snd (alloc al)))))"
proof -
  let ?m = "word_count_of ht"
  from insert_word_map[OF assms, of al w] obtain k b where
    i: "insert_word al (Some ht) (Some w) = (Some k, b)"
    and m: "(word_count_of k, b) = map_insert al ?m (cstr w)" by blast
  from arg_cong[OF m, of fst] have e: "word_count_of k = fst (map_insert al ?m (cstr w))"
    by simp
  show ?thesis
  proof (cases "?m (cstr w) = None \<and> \<not> (fst (alloc al) \<and> fst (alloc (snd (alloc al))))")
    case True
    then have inc: "increment_in_chain (table ht ! bucket_index ht w) w = None"
      using increment_None_mapping[OF assms, of w] by simp
    obtain x a1 where a1: "alloc al = (x, a1)" by (cases "alloc al")
    obtain y a2 where a2: "alloc a1 = (y, a2)" by (cases "alloc a1")
    have "fst (insert_word al (Some ht) (Some w)) = Some ht"
    proof (cases x)
      case False
      with insert_word_fail1[OF inc, of al a1] a1 show ?thesis by simp
    next
      case x: True
      with True a1 a2 have "\<not> y" by simp
      with insert_word_fail2[OF inc, of al a1 a2] a1 a2 x show ?thesis by simp
    qed
    with True show ?thesis by simp
  next
    case False
    then have "word_count_of k (cstr w) \<noteq> ?m (cstr w)"
      unfolding e map_insert_effect by (cases "?m (cstr w)") auto
    then have "k \<noteq> ht" by auto
    with i False show ?thesis by simp
  qed
qed

lemma insert_words_same_mapping:
  assumes "ht_inv h1" and "ht_inv h2" and "word_count_of h1 = word_count_of h2"
    and "unchanged (Some h1, a1) ws = unchanged (Some h2, a2) ws"
  shows "\<exists>t1 r1 t2 r2. insert_words (Some h1, a1) ws = (Some t1, r1)
     \<and> insert_words (Some h2, a2) ws = (Some t2, r2)
     \<and> word_count_of t1 = word_count_of t2"
  using assms
proof (induction ws arbitrary: h1 h2 a1 a2)
  case Nil
  then show ?case by simp
next
  case (Cons w ws)
  let ?m = "word_count_of h1"
  let ?ok1 = "fst (alloc a1) \<and> fst (alloc (snd (alloc a1)))"
  let ?ok2 = "fst (alloc a2) \<and> fst (alloc (snd (alloc a2)))"
  from insert_word_map[OF Cons.prems(1), of a1 w] obtain k1 b1 where
    1: "insert_word a1 (Some h1) (Some w) = (Some k1, b1)" "ht_inv k1"
       "(word_count_of k1, b1) = map_insert a1 ?m (cstr w)" by blast
  from insert_word_map[OF Cons.prems(2), of a2 w] Cons.prems(3) obtain k2 b2 where
    2: "insert_word a2 (Some h2) (Some w) = (Some k2, b2)" "ht_inv k2"
       "(word_count_of k2, b2) = map_insert a2 ?m (cstr w)" by auto
  from Cons.prems(4) 1(1) 2(1)
  have hd: "(fst (insert_word a1 (Some h1) (Some w)) = Some h1)
      = (fst (insert_word a2 (Some h2) (Some w)) = Some h2)"
    and tl: "unchanged (Some k1, b1) ws = unchanged (Some k2, b2) ws" by simp_all
  from hd have c: "(?m (cstr w) = None \<and> \<not> ?ok1) = (?m (cstr w) = None \<and> \<not> ?ok2)"
    unfolding insert_word_unchanged[OF Cons.prems(1)] insert_word_unchanged[OF Cons.prems(2)]
    by (simp add: Cons.prems(3))
  from arg_cong[OF 1(3), of fst] have e1: "word_count_of k1 = fst (map_insert a1 ?m (cstr w))"
    by simp
  from arg_cong[OF 2(3), of fst] have e2: "word_count_of k2 = fst (map_insert a2 ?m (cstr w))"
    by simp
  from c have "word_count_of k1 = word_count_of k2"
    unfolding e1 e2 map_insert_effect by auto
  from Cons.IH[OF 1(2) 2(2) this tl] 1(1) 2(1) show ?case by simp
qed

lemma counter_loop_same:
  assumes "fs1 (filename s1) = Some bytes" and "fs2 (filename s2) = Some bytes"
    and "char_count s1 = char_count s2" and "word_count s1 = word_count s2"
    and "line_count s1 = line_count s2" and "char_freq s1 = char_freq s2"
  shows "\<exists>t1 r1 t2 r2. analyze_file fs1 a1 s1 = (0, t1, r1) \<and> analyze_file fs2 a2 s2 = (0, t2, r2)
     \<and> char_count t1 = char_count t2 \<and> word_count t1 = word_count t2
     \<and> line_count t1 = line_count t2 \<and> char_freq t1 = char_freq t2
     \<and> (word_counts t1, r1) = insert_words (word_counts s1, a1) (tokens [] bytes)
     \<and> (word_counts t2, r2) = insert_words (word_counts s2, a2) (tokens [] bytes)"
proof -
  from analyze_file_parts[of fs1 s1 bytes a1, OF assms(1)] obtain t1 r1 where
    1: "analyze_file fs1 a1 s1 = (0, t1, r1)"
       "(char_count t1, word_count t1, line_count t1, char_freq t1)
         = (case foldl counter_step
                  (char_count s1, word_count s1, line_count s1, char_freq s1, False) bytes
            of (cc, wc, lc, fr, in_word) \<Rightarrow> (cc, wc, lc, fr))"
       "(word_counts t1, r1) = token_end (foldl token_step (word_counts s1, a1, []) bytes)"
    by blast
  from analyze_file_parts[of fs2 s2 bytes a2, OF assms(2)] obtain t2 r2 where
    2: "analyze_file fs2 a2 s2 = (0, t2, r2)"
       "(char_count t2, word_count t2, line_count t2, char_freq t2)
         = (case foldl counter_step
                  (char_count s2, word_count s2, line_count s2, char_freq s2, False) bytes
            of (cc, wc, lc, fr, in_word) \<Rightarrow> (cc, wc, lc, fr))"
       "(word_counts t2, r2) = token_end (foldl token_step (word_counts s2, a2, []) bytes)"
    by blast
  from 1(2) 2(2) assms(3-6)
  have "(char_count t1, word_count t1, line_count t1, char_freq t1)
      = (char_count t2, word_count t2, line_count t2, char_freq t2)" by simp
  then have "char_count t1 = char_count t2" "word_count t1 = word_count t2"
    "line_count t1 = line_count t2" "char_freq t1 = char_freq t2" by simp_all
  with 1(1,3) 2(1,3) show ?thesis by (simp add: token_words)
qed

text \<open>
  C8, as the code has it. Take two runs of \<open>analyze_file\<close> on files that hold the same
  bytes, each from a table \<open>create_hash_table\<close> returned and the state \<open>main\<close> builds;
  the bucket counts and the allocators of the two runs may differ. Both runs return 0
  with the same \<open>char_count\<close>, \<open>word_count\<close> and \<open>line_count\<close> and the same frequency
  table, and each store is the result of inserting the tokens of the input in order.
  If the same insertions leave the store unchanged in both runs (by
  \<open>insert_word_unchanged\<close>: those of a word not yet in the store for which \<open>malloc\<close> or
  \<open>strdup\<close> fails), the two stores represent the same word-to-count mapping.
\<close>

theorem analysis_deterministic:
  assumes "create_hash_table a1 n1 = (Some h1, al1)"
    and "create_hash_table a2 n2 = (Some h2, al2)"
    and "fs1 name1 = Some bytes" and "fs2 name2 = Some bytes"
  shows "\<exists>s1 r1 s2 r2.
       analyze_file fs1 al1 (init_stats name1 (Some h1)) = (0, s1, r1)
     \<and> analyze_file fs2 al2 (init_stats name2 (Some h2)) = (0, s2, r2)
     \<and> char_count s1 = char_count s2 \<and> word_count s1 = word_count s2
     \<and> line_count s1 = line_count s2 \<and> char_freq s1 = char_freq s2
     \<and> (word_counts s1, r1) = insert_words (Some h1, al1) (tokens [] bytes)
     \<and> (word_counts s2, r2) = insert_words (Some h2, al2) (tokens [] bytes)
     \<and> (unchanged (Some h1, al1) (tokens [] bytes) = unchanged (Some h2, al2) (tokens [] bytes)
          \<longrightarrow> (\<exists>t1 t2. word_counts s1 = Some t1 \<and> word_counts s2 = Some t2
                 \<and> word_count_of t1 = word_count_of t2))"
proof -
  let ?s1 = "init_stats name1 (Some h1)" and ?s2 = "init_stats name2 (Some h2)"
  from create_hash_table_Some[OF assms(1)] have h1: "h1 = empty_table n1" "ht_inv h1"
    by (simp_all add: ht_inv_empty_table)
  from create_hash_table_Some[OF assms(2)] have h2: "h2 = empty_table n2" "ht_inv h2"
    by (simp_all add: ht_inv_empty_table)
  have e: "word_count_of h1 = word_count_of h2" by (simp add: h1(1) h2(1) word_count_of_empty)
  have f1: "fs1 (filename ?s1) = Some bytes" using assms(3) by (simp add: init_stats_def)
  have f2: "fs2 (filename ?s2) = Some bytes" using assms(4) by (simp add: init_stats_def)
  from counter_loop_same[of fs1 ?s1 bytes fs2 ?s2 al1 al2, OF f1 f2] obtain s1 r1 s2 r2 where
    r: "analyze_file fs1 al1 ?s1 = (0, s1, r1)" "analyze_file fs2 al2 ?s2 = (0, s2, r2)"
       "char_count s1 = char_count s2" "word_count s1 = word_count s2"
       "line_count s1 = line_count s2" "char_freq s1 = char_freq s2"
    and w: "(word_counts s1, r1) = insert_words (Some h1, al1) (tokens [] bytes)"
       "(word_counts s2, r2) = insert_words (Some h2, al2) (tokens [] bytes)"
    by (auto simp: init_stats_def)
  have "unchanged (Some h1, al1) (tokens [] bytes) = unchanged (Some h2, al2) (tokens [] bytes)
          \<longrightarrow> (\<exists>t1 t2. word_counts s1 = Some t1 \<and> word_counts s2 = Some t2
                 \<and> word_count_of t1 = word_count_of t2)"
  proof
    assume "unchanged (Some h1, al1) (tokens [] bytes)
        = unchanged (Some h2, al2) (tokens [] bytes)"
    from insert_words_same_mapping[OF h1(2) h2(2) e this] w
    show "\<exists>t1 t2. word_counts s1 = Some t1 \<and> word_counts s2 = Some t2
               \<and> word_count_of t1 = word_count_of t2" by auto
  qed
  with r w show ?thesis by blast
qed

theorem analysis_deterministic_witness:
  "\<exists>s1 r1 s2 r2 t1 t2.
       analyze_file (\<lambda>path. Some ''to be, or not to be'') [False, True, True, True, False]
          (init_stats ''a.txt'' (Some (empty_table 3))) = (0, s1, r1)
     \<and> analyze_file (\<lambda>path. Some ''to be, or not to be'') [True, False, True, True, False]
          (init_stats ''b.txt'' (Some (empty_table 5))) = (0, s2, r2)
     \<and> char_count s1 = char_count s2 \<and> word_count s1 = word_count s2
     \<and> line_count s1 = line_count s2 \<and> char_freq s1 = char_freq s2
     \<and> word_counts s1 = Some t1 \<and> word_counts s2 = Some t2
     \<and> word_count_of t1 = word_count_of t2"
proof -
  let ?bytes = "''to be, or not to be''"
  let ?fs = "\<lambda>path::string. Some ?bytes"
  have c1: "create_hash_table [True, True, False, True, True, True, False] 3
      = (Some (empty_table 3), [False, True, True, True, False])"
    by (simp add: create_hash_table_def empty_table_def)
  have c2: "create_hash_table [True, True, True, False, True, True, False] 5
      = (Some (empty_table 5), [True, False, True, True, False])"
    by (simp add: create_hash_table_def empty_table_def)
  have f1: "?fs ''a.txt'' = Some ?bytes" by simp
  have f2: "?fs ''b.txt'' = Some ?bytes" by simp
  have u1: "unchanged (Some (empty_table 3), [False, True, True, True, False]) (tokens [] ?bytes)
      = [True, False, True, False, False, False]" by code_simp
  have u2: "unchanged (Some (empty_table 5), [True, False, True, True, False]) (tokens [] ?bytes)
      = [True, False, True, False, False, False]" by code_simp
  from analysis_deterministic[of "[True, True, False, True, True, True, False]" 3
      "empty_table 3" "[False, True, True, True, False]" "[True, True, True, False, True, True, False]" 5
      "empty_table 5" "[True, False, True, True, False]" ?fs "''a.txt''" ?bytes ?fs "''b.txt''",
      OF c1 c2 f1 f2] u1 u2
  show ?thesis by auto
qed

text \<open>
  The claim as stated, for every two runs: on the input "a", the run whose allocations
  succeed ends with "a" counted 1, the run in which the \<open>malloc\<close> of \<open>insert_word\<close> fails
  ends with an empty store.
\<close>

theorem analysis_deterministic_counterexample:
  "create_hash_table [] 3 = (Some (empty_table 3), [])
   \<and> create_hash_table [True, True, False] 3 = (Some (empty_table 3), [False])
   \<and> word_counts (fst (snd (analyze_file (\<lambda>path. Some ''a'') []
         (init_stats ''a.txt'' (Some (empty_table 3))))))
       = Some \<lparr>ht_size = 3, table = [[], [\<lparr>word = ''a'', count = 1\<rparr>], []]\<rparr>
   \<and> word_counts (fst (snd (analyze_file (\<lambda>path. Some ''a'') [False]
         (init_stats ''a.txt'' (Some (empty_table 3))))))
       = Some \<lparr>ht_size = 3, table = [[], [], []]\<rparr>
   \<and> word_count_of \<lparr>ht_size = 3, table = [[], [\<lparr>word = ''a'', count = 1\<rparr>], []]\<rparr> ''a'' = Some 1
   \<and> word_count_of \<lparr>ht_size = 3, table = [[], [], []]\<rparr> ''a'' = None"
  by code_simp

end
